theory Spec2Isabelle
  imports Main
begin

section \<open>JavaScript values\<close>

text \<open>
  The agenda front end (\<^verbatim>\<open>storage.js\<close>, \<^verbatim>\<open>calendar.js\<close>) keeps the events it
  receives from the server as plain JSON values. A Number is \<open>NaN\<close>, an infinity or a
  finite value; the finite values of the model are the integers (ids, minute counts and
  epoch milliseconds are all integers in this program). An object is the list of its
  own properties, in insertion order.
\<close>

datatype jsnum = NaN | PosInfinity | NegInfinity | Fin int

datatype jsval =
    JUndefined
  | JNull
  | JBool bool
  | JNum jsnum
  | JStr string
  | JArr "jsval list"
  | JObj "(string \<times> jsval) list"

subsection \<open>Number to string\<close>

definition digit_char :: "nat \<Rightarrow> char" where
  "digit_char d = ''0123456789'' ! d"

fun dec :: "nat \<Rightarrow> string" where
  "dec n = (if n < 10 then [digit_char n] else dec (n div 10) @ [digit_char (n mod 10)])"

declare dec.simps [simp del]

definition strip_zeros :: "string \<Rightarrow> string" where
  "strip_zeros ds = rev (dropWhile (\<lambda>c. c = CHR ''0'') (rev ds))"

text \<open>
  \<^verbatim>\<open>Number.prototype.toString()\<close> on an integer value: up to 21 digits are printed
  in full, a longer value in exponent notation (\<^verbatim>\<open>String(1e21) = "1e+21"\<close>). The model
  prints the exact digits of the integer. That is what the engine prints for every
  integer of magnitude below \<open>2\<^sup>5\<^sup>3\<close>; from there on the engine prints the shortest digits
  that read back as the same double, padded with zeros
  (\<^verbatim>\<open>String(2**60) = "1152921504606847000"\<close>), so the two agree on the number of digits,
  on the leading digits and on the exponent, and on every digit where the value is a
  short multiple of a power of ten. No property below depends on the digits of an
  integer of \<open>2\<^sup>5\<^sup>3\<close> or more, other than \<open>10\<^sup>2\<^sup>1\<close>.
\<close>

definition exp_notation :: "string \<Rightarrow> string" where
  "exp_notation ds =
     (let m = strip_zeros (tl ds)
      in [hd ds] @ (if m = [] then [] else ''.'' @ m) @ ''e+'' @ dec (length ds - 1))"

definition int_to_string :: "int \<Rightarrow> string" where
  "int_to_string i =
     (let ds = dec (nat \<bar>i\<bar>)
      in (if i < 0 then ''-'' else []) @ (if length ds \<le> 21 then ds else exp_notation ds))"

fun num_to_string :: "jsnum \<Rightarrow> string" where
  "num_to_string NaN = ''NaN''"
| "num_to_string PosInfinity = ''Infinity''"
| "num_to_string NegInfinity = ''-Infinity''"
| "num_to_string (Fin i) = int_to_string i"

subsection \<open>String(v), truthiness, property access\<close>

fun join :: "string \<Rightarrow> string list \<Rightarrow> string" where
  "join sep [] = []"
| "join sep [s] = s"
| "join sep (s # t # ss) = s @ sep @ join sep (t # ss)"

text \<open>\<^verbatim>\<open>String(v)\<close>. An array joins its elements with commas, printing \<^verbatim>\<open>null\<close> and
  \<^verbatim>\<open>undefined\<close> elements as the empty string.\<close>

fun jsString :: "jsval \<Rightarrow> string" where
  "jsString JUndefined = ''undefined''"
| "jsString JNull = ''null''"
| "jsString (JBool b) = (if b then ''true'' else ''false'')"
| "jsString (JNum n) = num_to_string n"
| "jsString (JStr s) = s"
| "jsString (JArr xs) =
     join '','' (map (\<lambda>x. if x = JUndefined \<or> x = JNull then [] else jsString x) xs)"
| "jsString (JObj kvs) = ''[object Object]''"

fun truthy :: "jsval \<Rightarrow> bool" where
  "truthy JUndefined = False"
| "truthy JNull = False"
| "truthy (JBool b) = b"
| "truthy (JNum n) = (n \<noteq> NaN \<and> n \<noteq> Fin 0)"
| "truthy (JStr s) = (s \<noteq> [])"
| "truthy (JArr xs) = True"
| "truthy (JObj kvs) = True"

text \<open>
  \<^verbatim>\<open>v.name\<close> for the property names the cache reads (\<^verbatim>\<open>id\<close>, \<^verbatim>\<open>start\<close>,
  \<^verbatim>\<open>end\<close>): \<open>None\<close> is the TypeError that reading a property of \<^verbatim>\<open>null\<close> or
  \<^verbatim>\<open>undefined\<close> throws; a primitive or an array has no such property.
\<close>

fun getprop :: "jsval \<Rightarrow> string \<Rightarrow> jsval option" where
  "getprop JUndefined name = None"
| "getprop JNull name = None"
| "getprop (JObj kvs) name =
     Some (case map_of kvs name of None \<Rightarrow> JUndefined | Some v \<Rightarrow> v)"
| "getprop v name = Some JUndefined"

section \<open>Dates\<close>

text \<open>
  A \<^verbatim>\<open>Date\<close> object is its time value: epoch milliseconds, or \<open>None\<close> for an Invalid
  Date, whose \<^verbatim>\<open>getTime()\<close> is \<open>NaN\<close>. Relational operators on two dates compare the
  time values, and every comparison with \<open>NaN\<close> is false.
\<close>

type_synonym jsdate = "int option"

fun num_lt :: "jsdate \<Rightarrow> jsdate \<Rightarrow> bool" where
  "num_lt (Some a) (Some b) = (a < b)"
| "num_lt a b = False"

fun num_le :: "jsdate \<Rightarrow> jsdate \<Rightarrow> bool" where
  "num_le (Some a) (Some b) = (a \<le> b)"
| "num_le a b = False"

definition num_gt :: "jsdate \<Rightarrow> jsdate \<Rightarrow> bool" where
  "num_gt a b = num_lt b a"

definition num_ge :: "jsdate \<Rightarrow> jsdate \<Rightarrow> bool" where
  "num_ge a b = num_le b a"

section \<open>The shared events cache\<close>

text \<open>
  \<^verbatim>\<open>sharedEventsCache = { key: null, start: null, end: null, events: [] }\<close>: the
  filter key and the two coverage bounds are \<open>None\<close> while they are \<^verbatim>\<open>null\<close>.
\<close>

record cache =
  cache_key :: "string option"
  cache_start :: "jsdate option"
  cache_end :: "jsdate option"
  cache_events :: "jsval list"

definition sharedEventsCache :: cache where
  "sharedEventsCache =
     \<lparr>cache_key = None, cache_start = None, cache_end = None, cache_events = []\<rparr>"

subsection \<open>storeEventsToCache\<close>

text \<open>\<^verbatim>\<open>String(e.id)\<close>; \<open>None\<close> when \<^verbatim>\<open>e\<close> is \<^verbatim>\<open>null\<close> or \<^verbatim>\<open>undefined\<close>.\<close>

definition idKey :: "jsval \<Rightarrow> string option" where
  "idKey e = map_option jsString (getprop e ''id'')"

text \<open>A \<^verbatim>\<open>Map\<close> with string keys keeps its entries in insertion order; \<^verbatim>\<open>set\<close> on a key
  that is present replaces the value where it stands.\<close>

fun map_set :: "(string \<times> jsval) list \<Rightarrow> string \<Rightarrow> jsval \<Rightarrow> (string \<times> jsval) list" where
  "map_set [] k v = [(k, v)]"
| "map_set ((k', v') # m) k v = (if k' = k then (k, v) # m else (k', v') # map_set m k v)"

text \<open>\<^verbatim>\<open>events.map(e => [String(e.id), e])\<close>\<close>

fun entries :: "jsval list \<Rightarrow> (string \<times> jsval) list option" where
  "entries [] = Some []"
| "entries (e # es) =
     (case idKey e of
        None \<Rightarrow> None
      | Some k \<Rightarrow> (case entries es of None \<Rightarrow> None | Some ps \<Rightarrow> Some ((k, e) # ps)))"

text \<open>\<^verbatim>\<open>new Map(pairs)\<close>\<close>

definition Map_new :: "(string \<times> jsval) list \<Rightarrow> (string \<times> jsval) list" where
  "Map_new ps = foldl (\<lambda>m (k, v). map_set m k v) [] ps"

text \<open>\<^verbatim>\<open>list.forEach(e => byId.set(String(e.id), e))\<close>\<close>

fun set_each :: "(string \<times> jsval) list \<Rightarrow> jsval list \<Rightarrow> (string \<times> jsval) list option" where
  "set_each m [] = Some m"
| "set_each m (e # es) =
     (case idKey e of None \<Rightarrow> None | Some k \<Rightarrow> set_each (map_set m k e) es)"

text \<open>
  \<^verbatim>\<open>if (covStart && covStart < sharedEventsCache.start) sharedEventsCache.start = covStart\<close>
  and its mirror image for the end. Both run only on the merge path, where the stored
  bounds are not \<^verbatim>\<open>null\<close>.
\<close>

fun widen_start :: "jsdate option \<Rightarrow> jsdate option \<Rightarrow> jsdate option" where
  "widen_start (Some d) (Some s) = (if num_lt d s then Some d else Some s)"
| "widen_start covStart old = old"

fun widen_end :: "jsdate option \<Rightarrow> jsdate option \<Rightarrow> jsdate option" where
  "widen_end (Some d) (Some e) = (if num_gt d e then Some d else Some e)"
| "widen_end covEnd old = old"

text \<open>
  The function mutates the cache; the model returns the new cache, or \<open>None\<close> when the
  merge throws a TypeError on a \<^verbatim>\<open>null\<close> or \<^verbatim>\<open>undefined\<close> element, which happens before
  the first assignment and leaves the cache as it was. The callers pass an array as
  \<^verbatim>\<open>list\<close> and a \<^verbatim>\<open>Date\<close> or \<^verbatim>\<open>null\<close> as each coverage bound.
\<close>

definition storeEventsToCache ::
  "jsval list \<Rightarrow> jsdate option \<Rightarrow> jsdate option \<Rightarrow> string \<Rightarrow> cache \<Rightarrow> cache option" where
  "storeEventsToCache list covStart covEnd key c =
     (let sameKey = (cache_key c = Some key) in
      if \<not> sameKey \<or> cache_start c = None \<or> cache_end c = None then
        Some \<lparr>cache_key = Some key, cache_start = covStart, cache_end = covEnd,
              cache_events = list\<rparr>
      else
        (case entries (cache_events c) of
           None \<Rightarrow> None
         | Some ps \<Rightarrow>
             (case set_each (Map_new ps) list of
                None \<Rightarrow> None
              | Some byId \<Rightarrow>
                  Some \<lparr>cache_key = cache_key c,
                        cache_start = widen_start covStart (cache_start c),
                        cache_end = widen_end covEnd (cache_end c),
                        cache_events = map snd byId\<rparr>)))"

text \<open>The cache after the call, whether it returned or threw.\<close>

definition cacheAfterStore ::
  "jsval list \<Rightarrow> jsdate option \<Rightarrow> jsdate option \<Rightarrow> string \<Rightarrow> cache \<Rightarrow> cache" where
  "cacheAfterStore list covStart covEnd key c =
     (case storeEventsToCache list covStart covEnd key c of None \<Rightarrow> c | Some c' \<Rightarrow> c')"

subsection \<open>cacheCoversRange\<close>

definition cacheCoversRange :: "jsdate \<Rightarrow> jsdate \<Rightarrow> string \<Rightarrow> cache \<Rightarrow> bool" where
  "cacheCoversRange rangeStart rangeEnd key c =
     (if cache_key c \<noteq> Some key then False
      else case (cache_start c, cache_end c) of
             (Some s, Some e) \<Rightarrow> num_le s rangeStart \<and> num_ge e rangeEnd
           | _ \<Rightarrow> False)"

subsection \<open>eventsFromCache\<close>

fun replace_space :: "string \<Rightarrow> string" where
  "replace_space [] = []"
| "replace_space (c # cs) = (if c = CHR '' '' then CHR ''T'' # cs else c # replace_space cs)"

text \<open>
  \<^verbatim>\<open>v ? new Date(String(v).replace(' ', 'T')) : null\<close>. What the engine's date parser
  makes of a string is a parameter \<open>parse\<close>: the time value, or \<open>None\<close> for a string it
  does not recognise.
\<close>

definition toDate :: "(string \<Rightarrow> int option) \<Rightarrow> jsval \<Rightarrow> jsdate option" where
  "toDate parse v = (if truthy v then Some (parse (replace_space (jsString v))) else None)"

text \<open>The filter callback; an exception thrown inside it is caught and answers false.\<close>

definition inRange :: "(string \<Rightarrow> int option) \<Rightarrow> jsdate \<Rightarrow> jsdate \<Rightarrow> jsval \<Rightarrow> bool" where
  "inRange parse rs re ev =
     (case getprop ev ''start'' of
        None \<Rightarrow> False
      | Some sv \<Rightarrow>
          (case getprop ev ''end'' of
             None \<Rightarrow> False
           | Some ev_end \<Rightarrow>
               (case (toDate parse sv, toDate parse ev_end) of
                  (Some s, Some e) \<Rightarrow> num_ge e rs \<and> num_lt s re
                | (Some s, None) \<Rightarrow> num_lt s re
                | (None, _) \<Rightarrow> False)))"

definition eventsFromCache ::
  "(string \<Rightarrow> int option) \<Rightarrow> jsdate \<Rightarrow> jsdate \<Rightarrow> string \<Rightarrow> cache \<Rightarrow> jsval list" where
  "eventsFromCache parse rangeStart rangeEnd key c =
     (if cache_key c \<noteq> Some key then []
      else filter (inRange parse rangeStart rangeEnd) (cache_events c))"

text \<open>
  What the specification calls the start and the end of an event, read off the event's
  own fields. \<open>None\<close>: the event has none (the field is absent, \<^verbatim>\<open>null\<close> or otherwise
  falsy, or the element is not an object at all); \<open>Some None\<close>: the field is there and
  its text is not a date; \<open>Some (Some t)\<close>: the date it holds.
\<close>

definition event_start :: "(string \<Rightarrow> int option) \<Rightarrow> jsval \<Rightarrow> jsdate option" where
  "event_start parse ev =
     (case getprop ev ''start'' of
        None \<Rightarrow> None
      | Some v \<Rightarrow> if truthy v then Some (parse (replace_space (jsString v))) else None)"

definition event_end :: "(string \<Rightarrow> int option) \<Rightarrow> jsval \<Rightarrow> jsdate option" where
  "event_end parse ev =
     (case getprop ev ''end'' of
        None \<Rightarrow> None
      | Some v \<Rightarrow> if truthy v then Some (parse (replace_space (jsString v))) else None)"

text \<open>
  The overlap rule in the words of the specification: an event with a start and an end
  overlaps \<open>[rs, re)\<close> iff \<open>end \<ge> rs\<close> and \<open>start < re\<close>; an open-ended event iff
  \<open>start < re\<close>; an event without a parseable start never does.
\<close>

fun overlapsRange :: "int \<Rightarrow> int \<Rightarrow> jsdate option \<Rightarrow> jsdate option \<Rightarrow> bool" where
  "overlapsRange rs re (Some (Some s)) (Some (Some e)) = (e \<ge> rs \<and> s < re)"
| "overlapsRange rs re (Some (Some s)) None = (s < re)"
| "overlapsRange rs re s e = False"

section \<open>A date parser for the server's date-time strings\<close>

text \<open>
  The server sends local date-times as \<^verbatim>\<open>YYYY-MM-DDTHH:mm\<close> or
  \<^verbatim>\<open>YYYY-MM-DDTHH:mm:ss\<close>. \<open>isoParse\<close> reads these two forms as the engine does in a
  time zone at offset zero, and rejects every other string; it stands for \<open>parse\<close>
  wherever a concrete date is needed.
\<close>

definition digit_val :: "char \<Rightarrow> nat option" where
  "digit_val c =
     (let n = (of_char c :: nat) in if 48 \<le> n \<and> n \<le> 57 then Some (n - 48) else None)"

fun digits_val :: "nat \<Rightarrow> string \<Rightarrow> nat option" where
  "digits_val acc [] = Some acc"
| "digits_val acc (c # cs) =
     (case digit_val c of None \<Rightarrow> None | Some d \<Rightarrow> digits_val (10 * acc + d) cs)"

definition days_from_civil :: "int \<Rightarrow> int \<Rightarrow> int \<Rightarrow> int" where
  "days_from_civil y m d =
     (let y' = (if m \<le> 2 then y - 1 else y);
          era = y' div 400;
          yoe = y' - era * 400;
          doy = (153 * (m + (if m > 2 then - 3 else 9)) + 2) div 5 + d - 1;
          doe = yoe * 365 + yoe div 4 - yoe div 100 + doy
      in era * 146097 + doe - 719468)"

definition isoParse :: "string \<Rightarrow> int option" where
  "isoParse s =
     (if (length s = 16 \<or> (length s = 19 \<and> s ! 16 = CHR '':'')) \<and>
         s ! 4 = CHR ''-'' \<and> s ! 7 = CHR ''-'' \<and> s ! 10 = CHR ''T'' \<and> s ! 13 = CHR '':''
      then
        (case (digits_val 0 (take 4 s), digits_val 0 (take 2 (drop 5 s)),
               digits_val 0 (take 2 (drop 8 s)), digits_val 0 (take 2 (drop 11 s)),
               digits_val 0 (take 2 (drop 14 s)), digits_val 0 (drop 17 s)) of
           (Some y, Some m, Some d, Some h, Some mi, Some sec) \<Rightarrow>
             if 1 \<le> m \<and> m \<le> 12 \<and> 1 \<le> d \<and> d \<le> 31 \<and> h \<le> 23 \<and> mi \<le> 59 \<and> sec \<le> 59
             then Some (((days_from_civil (int y) (int m) (int d) * 24 + int h) * 60 + int mi)
                          * 60000 + int sec * 1000)
             else None
         | _ \<Rightarrow> None)
      else None)"

subsection \<open>addEventToCache\<close>

text \<open>\<^verbatim>\<open>events.some(e => String(e.id) === id)\<close>; \<open>None\<close> when the scan throws on a
  \<^verbatim>\<open>null\<close> or \<^verbatim>\<open>undefined\<close> element before it finds a match.\<close>

fun some_id :: "jsval list \<Rightarrow> string \<Rightarrow> bool option" where
  "some_id [] i = Some False"
| "some_id (e # es) i =
     (case idKey e of None \<Rightarrow> None | Some k \<Rightarrow> if k = i then Some True else some_id es i)"

text \<open>\<^verbatim>\<open>sharedEventsCache.events.push(ev)\<close>\<close>

definition push :: "jsval \<Rightarrow> cache \<Rightarrow> cache" where
  "push ev c = c\<lparr>cache_events := cache_events c @ [ev]\<rparr>"

text \<open>
  \<^verbatim>\<open>const id = ev && ev.id != null ? String(ev.id) : null; if (id) { ... if (exists) return; }\<close>
  The whole body sits in a \<^verbatim>\<open>try\<close> whose handler only logs, so a throwing scan
  leaves the cache as it was.
\<close>

definition addEventToCache :: "jsval \<Rightarrow> cache \<Rightarrow> cache" where
  "addEventToCache ev c =
     (let id = (if truthy ev
                then (case getprop ev ''id'' of
                        None \<Rightarrow> None
                      | Some v \<Rightarrow> if v \<noteq> JUndefined \<and> v \<noteq> JNull then Some (jsString v) else None)
                else None)
      in case id of
           None \<Rightarrow> push ev c
         | Some i \<Rightarrow>
             if i \<noteq> [] then
               (case some_id (cache_events c) i of
                  None \<Rightarrow> c
                | Some exists \<Rightarrow> if exists then c else push ev c)
             else push ev c)"

section \<open>An invariant of the merge map\<close>

text \<open>The entries of \<^verbatim>\<open>byId\<close> have distinct keys, and every value is filed under the
  string of its own id.\<close>

definition good :: "(string \<times> jsval) list \<Rightarrow> bool" where
  "good m \<longleftrightarrow> distinct (map fst m) \<and> (\<forall>(k, v) \<in> set m. idKey v = Some k)"

section \<open>Settings in local storage\<close>

text \<open>
  \<^verbatim>\<open>localStorage\<close> maps keys to strings. Where the browser denies storage, every access
  throws; \<open>blocked\<close> says so, and \<open>None\<close> is the exception. Each function of the adapter
  catches it and falls back to its default.
\<close>

record storage =
  items :: "string \<rightharpoonup> string"
  blocked :: bool

definition getItem :: "storage \<Rightarrow> string \<Rightarrow> string option option" where
  "getItem st k = (if blocked st then None else Some (items st k))"

definition setItem :: "storage \<Rightarrow> string \<Rightarrow> string \<Rightarrow> storage option" where
  "setItem st k v = (if blocked st then None else Some (st\<lparr>items := (items st)(k \<mapsto> v)\<rparr>))"

text \<open>
  \<^verbatim>\<open>parseInt(str, 10)\<close>: leading white space is skipped, a sign is read, and the longest
  run of decimal digits that follows is the value; with no digit the result is \<open>NaN\<close>.
  The value is the exact integer.
\<close>

definition is_space :: "char \<Rightarrow> bool" where
  "is_space c \<longleftrightarrow> c \<in> set [CHR '' '', CHR 0x09, CHR 0x0A, CHR 0x0B, CHR 0x0C, CHR 0x0D]"

definition is_digit :: "char \<Rightarrow> bool" where
  "is_digit c \<longleftrightarrow> 48 \<le> (of_char c :: nat) \<and> (of_char c :: nat) \<le> 57"

fun digits_nat :: "nat \<Rightarrow> string \<Rightarrow> nat" where
  "digits_nat acc [] = acc"
| "digits_nat acc (c # cs) = digits_nat (10 * acc + (of_char c - 48)) cs"

definition parseInt :: "string \<Rightarrow> jsnum" where
  "parseInt str =
     (let s = dropWhile is_space str;
          negative = (s \<noteq> [] \<and> hd s = CHR ''-'');
          s' = (if s \<noteq> [] \<and> (hd s = CHR ''-'' \<or> hd s = CHR ''+'') then tl s else s);
          z = takeWhile is_digit s'
      in if z = [] then NaN
         else Fin ((if negative then - 1 else 1) * int (digits_nat 0 z)))"

text \<open>\<^verbatim>\<open>isFinite(x)\<close> and \<^verbatim>\<open>x <= 0\<close> on a Number.\<close>

fun isFinite :: "jsnum \<Rightarrow> bool" where
  "isFinite (Fin i) = True"
| "isFinite n = False"

fun le_zero :: "jsnum \<Rightarrow> bool" where
  "le_zero (Fin i) = (i \<le> 0)"
| "le_zero NegInfinity = True"
| "le_zero n = False"

subsection \<open>Default new-event duration (minutes)\<close>

definition DEFAULT_DURATION_KEY :: string where
  "DEFAULT_DURATION_KEY = ''defaultEventDurationMin''"

text \<open>\<^verbatim>\<open>parseInt(localStorage.getItem(DEFAULT_DURATION_KEY) || '60', 10)\<close>, then the guard.\<close>

definition getDefaultEventDurationMin :: "storage \<Rightarrow> jsnum" where
  "getDefaultEventDurationMin st =
     (case getItem st DEFAULT_DURATION_KEY of
        None \<Rightarrow> Fin 60
      | Some item \<Rightarrow>
          (let saved = parseInt (case item of None \<Rightarrow> ''60'' | Some s \<Rightarrow> if s = [] then ''60'' else s)
           in if \<not> isFinite saved \<or> le_zero saved \<or> saved = Fin 15 then Fin 60 else saved))"

text \<open>The setter returns the storage as the call leaves it.\<close>

definition setDefaultEventDurationMin :: "jsnum \<Rightarrow> storage \<Rightarrow> storage" where
  "setDefaultEventDurationMin mins st =
     (let v = (if \<not> isFinite mins \<or> le_zero mins \<or> mins = Fin 15 then Fin 60 else mins)
      in case setItem st DEFAULT_DURATION_KEY (num_to_string v) of
           None \<Rightarrow> st
         | Some st' \<Rightarrow> st')"

section \<open>The fetch coordinator\<close>

text \<open>
  The \<^verbatim>\<open>events\<close> callback of the main calendar (\<^verbatim>\<open>calendar.js\<close>) answers its caller
  from the cache when the cache covers the padded range, waits on a pending fetch of the
  same \<^verbatim>\<open>dedupKey\<close> when there is one, and otherwise sends a request and registers its
  promise in \<^verbatim>\<open>pendingEventsFetches\<close>. JavaScript runs one callback at a time, so the
  coordinator is a state and each callback a function on it.
\<close>

subsection \<open>Date.prototype.toISOString\<close>

text \<open>
  \<^verbatim>\<open>padStart\<close> with zeros, the civil date of a day number, and the ISO string of a time
  value (UTC, milliseconds, four-digit years and the signed six-digit form outside
  0..9999). In the coordinator the printer is a parameter \<open>toISO\<close>; \<open>toISOString\<close> stands
  for it wherever a concrete string is needed.
\<close>

definition pad :: "nat \<Rightarrow> nat \<Rightarrow> string" where
  "pad w n = replicate (w - length (dec n)) (CHR ''0'') @ dec n"

definition civil_from_days :: "int \<Rightarrow> int \<times> int \<times> int" where
  "civil_from_days z0 =
     (let z = z0 + 719468;
          era = z div 146097;
          doe = z - era * 146097;
          yoe = (doe - doe div 1460 + doe div 36524 - doe div 146096) div 365;
          doy = doe - (365 * yoe + yoe div 4 - yoe div 100);
          mp = (5 * doy + 2) div 153;
          d = doy - (153 * mp + 2) div 5 + 1;
          m = (if mp < 10 then mp + 3 else mp - 9);
          y = yoe + era * 400 + (if m \<le> 2 then 1 else 0)
      in (y, m, d))"

definition toISOString :: "int \<Rightarrow> string" where
  "toISOString t =
     (let (y, m, d) = civil_from_days (t div 86400000);
          ms = nat (t mod 86400000);
          year = (if 0 \<le> y \<and> y \<le> 9999 then pad 4 (nat y)
                  else (if y < 0 then ''-'' else ''+'') @ pad 6 (nat \<bar>y\<bar>))
      in year @ ''-'' @ pad 2 (nat m) @ ''-'' @ pad 2 (nat d) @ ''T'' @
         pad 2 (ms div 3600000) @ '':'' @ pad 2 (ms div 60000 mod 60) @ '':'' @
         pad 2 (ms div 1000 mod 60) @ ''.'' @ pad 3 (ms mod 1000) @ ''Z'')"

subsection \<open>Callers, responses and the coordinator's state\<close>

text \<open>What a caller is told: \<^verbatim>\<open>success(result)\<close> or \<^verbatim>\<open>failure(err)\<close>.\<close>

datatype answer = Success "jsval list" | Failure

text \<open>
  How the request ends: \<^verbatim>\<open>fetch\<close> rejects, the status is not OK, the body is not JSON,
  or the body parses to a value.
\<close>

datatype response = NetworkError | HttpError | BadJson | Ok jsval

text \<open>
  One invocation of \<^verbatim>\<open>events(fetchInfo, success, failure)\<close>, with what its callbacks
  close over: who called and whether \<^verbatim>\<open>failure\<close> is a function, the filter key
  \<^verbatim>\<open>buildCacheKey()\<close> returned, the padded range \<^verbatim>\<open>covStart\<close>, \<^verbatim>\<open>covEnd\<close> (month
  boundaries, or the one-shot \<^verbatim>\<open>__fetchMonthOverride\<close>), and the requested range
  \<^verbatim>\<open>new Date(fetchInfo.start)\<close>, \<^verbatim>\<open>new Date(fetchInfo.end)\<close>.
\<close>

record call =
  call_who :: nat
  call_has_failure :: bool
  call_key :: string
  call_covStart :: jsdate
  call_covEnd :: jsdate
  call_start :: jsdate
  call_end :: jsdate

text \<open>
  The shared cache; \<^verbatim>\<open>pendingEventsFetches\<close>, from \<^verbatim>\<open>dedupKey\<close> to the promise stored
  under it (promises are numbered in the order of the requests); the promise chains that
  have not run their \<^verbatim>\<open>finally\<close> yet, each with the call that started it and whether its
  response has been handled; the callers chained on a pending promise; the callbacks
  invoked so far; and the number of requests sent.
\<close>

record coordinator =
  sharedCache :: cache
  pendingEventsFetches :: "string \<rightharpoonup> nat"
  inflight :: "nat \<rightharpoonup> call \<times> bool"
  waiting :: "(nat \<times> call) list"
  answered :: "(nat \<times> answer) list"
  fetches :: nat

definition page_load :: coordinator where
  "page_load =
     \<lparr>sharedCache = sharedEventsCache, pendingEventsFetches = Map.empty, inflight = Map.empty,
      waiting = [], answered = [], fetches = 0\<rparr>"

text \<open>\<^verbatim>\<open>success(result)\<close>, and the error branch
  \<^verbatim>\<open>if (typeof failure === 'function') failure(...); else success([])\<close>.\<close>

definition success :: "call \<Rightarrow> jsval list \<Rightarrow> coordinator \<Rightarrow> coordinator" where
  "success cl result s = s\<lparr>answered := answered s @ [(call_who cl, Success result)]\<rparr>"

definition fail :: "call \<Rightarrow> coordinator \<Rightarrow> coordinator" where
  "fail cl s =
     (if call_has_failure cl then s\<lparr>answered := answered s @ [(call_who cl, Failure)]\<rparr>
      else success cl [] s)"

text \<open>\<^verbatim>\<open>eventsFromCache(new Date(fetchInfo.start), new Date(fetchInfo.end), key)\<close>\<close>

definition fromCache :: "(string \<Rightarrow> int option) \<Rightarrow> call \<Rightarrow> cache \<Rightarrow> jsval list" where
  "fromCache parse cl c = eventsFromCache parse (call_start cl) (call_end cl) (call_key cl) c"

text \<open>
  \<^verbatim>\<open>`${key}|${covStart.toISOString()}|${covEnd.toISOString()}`\<close>; \<open>None\<close> is the
  RangeError that \<^verbatim>\<open>toISOString\<close> throws on an Invalid Date.
\<close>

definition dedupKey :: "(int \<Rightarrow> string) \<Rightarrow> call \<Rightarrow> string option" where
  "dedupKey toISO cl =
     (case (call_covStart cl, call_covEnd cl) of
        (Some a, Some b) \<Rightarrow> Some (call_key cl @ ''|'' @ toISO a @ ''|'' @ toISO b)
      | _ \<Rightarrow> None)"

subsection \<open>The callbacks\<close>

text \<open>
  The body of \<^verbatim>\<open>events\<close>. An exception goes to the outer \<^verbatim>\<open>catch\<close>, which reports the
  failure. A covered range is answered at once. A pending \<^verbatim>\<open>dedupKey\<close> chains the caller
  on the stored promise. Otherwise \<^verbatim>\<open>fetch\<close> is called and the new promise is stored
  under the \<^verbatim>\<open>dedupKey\<close>.
\<close>

definition events ::
  "(int \<Rightarrow> string) \<Rightarrow> (string \<Rightarrow> int option) \<Rightarrow> call \<Rightarrow> coordinator \<Rightarrow> coordinator" where
  "events toISO parse cl s =
     (case dedupKey toISO cl of
        None \<Rightarrow> fail cl s
      | Some dk \<Rightarrow>
          if cacheCoversRange (call_covStart cl) (call_covEnd cl) (call_key cl) (sharedCache s)
          then success cl (fromCache parse cl (sharedCache s)) s
          else
            (case pendingEventsFetches s dk of
               Some p \<Rightarrow> s\<lparr>waiting := waiting s @ [(p, cl)]\<rparr>
             | None \<Rightarrow>
                 s\<lparr>inflight := (inflight s)(fetches s \<mapsto> (cl, False)),
                   pendingEventsFetches := (pendingEventsFetches s)(dk \<mapsto> fetches s),
                   fetches := Suc (fetches s)\<rparr>))"

text \<open>
  The response arrives at a chain that has not handled one yet:
  \<^verbatim>\<open>.then(r => { if (!r.ok) throw ...; return r.json(); })\<close>, then
  \<^verbatim>\<open>.then(list => { storeEventsToCache(Array.isArray(list) ? list : [], covStart, covEnd, key); success(eventsFromCache(...)); })\<close>;
  a rejection or an exception anywhere before goes to \<^verbatim>\<open>.catch(err => ...)\<close>.
\<close>

definition respond ::
  "(string \<Rightarrow> int option) \<Rightarrow> nat \<Rightarrow> response \<Rightarrow> coordinator \<Rightarrow> coordinator" where
  "respond parse p r s =
     (case inflight s p of
        Some (cl, False) \<Rightarrow>
          (let s' = s\<lparr>inflight := (inflight s)(p \<mapsto> (cl, True))\<rparr> in
           case r of
             Ok body \<Rightarrow>
               (case storeEventsToCache (case body of JArr list \<Rightarrow> list | _ \<Rightarrow> [])
                       (Some (call_covStart cl)) (Some (call_covEnd cl)) (call_key cl)
                       (sharedCache s) of
                  None \<Rightarrow> fail cl s'
                | Some c \<Rightarrow> success cl (fromCache parse cl c) (s'\<lparr>sharedCache := c\<rparr>))
           | _ \<Rightarrow> fail cl s')
      | _ \<Rightarrow> s)"

text \<open>
  \<^verbatim>\<open>.finally(() => { pendingEventsFetches.delete(dedupKey); ... })\<close>, after which the
  promise stored in the map is settled. The callback also clears the one-shot month
  override when the call used it; the override only decides which padded range a call
  computes, and the padded range is part of the call here.
\<close>

definition finalize :: "(int \<Rightarrow> string) \<Rightarrow> nat \<Rightarrow> coordinator \<Rightarrow> coordinator" where
  "finalize toISO p s =
     (case inflight s p of
        Some (cl, True) \<Rightarrow>
          (case dedupKey toISO cl of
             Some dk \<Rightarrow>
               s\<lparr>pendingEventsFetches := (pendingEventsFetches s)(dk := None),
                 inflight := (inflight s)(p := None)\<rparr>
           | None \<Rightarrow> s\<lparr>inflight := (inflight s)(p := None)\<rparr>)
      | _ \<Rightarrow> s)"

text \<open>
  The \<^verbatim>\<open>.then(() => { success(eventsFromCache(...)); })\<close> of the \<open>i\<close>-th waiting caller,
  once the promise it is chained on has settled. That promise is the one \<^verbatim>\<open>finally\<close>
  returns, behind the \<^verbatim>\<open>catch\<close> of the chain, so it is fulfilled whether the request
  succeeded or failed.
\<close>

definition wake :: "(string \<Rightarrow> int option) \<Rightarrow> nat \<Rightarrow> coordinator \<Rightarrow> coordinator" where
  "wake parse i s =
     (if i < length (waiting s) \<and> inflight s (fst (waiting s ! i)) = None
      then success (snd (waiting s ! i)) (fromCache parse (snd (waiting s ! i)) (sharedCache s))
             (s\<lparr>waiting := take i (waiting s) @ drop (Suc i) (waiting s)\<rparr>)
      else s)"

text \<open>
  What can happen on the page, one callback at a time: a call of \<^verbatim>\<open>events\<close>, the
  response to a request, the \<^verbatim>\<open>finally\<close> of a chain, the callback of a waiting caller,
  or an edit of the cache by another handler (\<^verbatim>\<open>addEventToCache\<close> and its siblings). A
  callback that cannot run yet (a \<^verbatim>\<open>finally\<close> before the response, a waiting caller
  before its promise has settled) leaves the state as it is, so every list of actions is
  an interleaving and \<open>run\<close> from \<open>page_load\<close> gives every state the page can reach.
\<close>

datatype action =
    Invoke call
  | Arrive nat response
  | Finish nat
  | Resume nat
  | Edit cache

fun act ::
  "(int \<Rightarrow> string) \<Rightarrow> (string \<Rightarrow> int option) \<Rightarrow> action \<Rightarrow> coordinator \<Rightarrow> coordinator" where
  "act toISO parse (Invoke cl) s = events toISO parse cl s"
| "act toISO parse (Arrive p r) s = respond parse p r s"
| "act toISO parse (Finish p) s = finalize toISO p s"
| "act toISO parse (Resume i) s = wake parse i s"
| "act toISO parse (Edit c) s = s\<lparr>sharedCache := c\<rparr>"

fun run ::
  "(int \<Rightarrow> string) \<Rightarrow> (string \<Rightarrow> int option) \<Rightarrow> action list \<Rightarrow> coordinator \<Rightarrow> coordinator" where
  "run toISO parse [] s = s"
| "run toISO parse (a # as) s = run toISO parse as (act toISO parse a s)"

text \<open>
  What holds of the map and the chains in every reachable state: a key of the map leads
  to a chain with that \<^verbatim>\<open>dedupKey\<close>, every chain is stored under its \<^verbatim>\<open>dedupKey\<close>, and
  promise numbers are below the number of requests sent.
\<close>

definition consistent :: "(int \<Rightarrow> string) \<Rightarrow> coordinator \<Rightarrow> bool" where
  "consistent toISO s \<longleftrightarrow>
     (\<forall>dk p. pendingEventsFetches s dk = Some p \<longrightarrow>
        (\<exists>cl b. inflight s p = Some (cl, b) \<and> dedupKey toISO cl = Some dk)) \<and>
     (\<forall>p cl b. inflight s p = Some (cl, b) \<longrightarrow>
        (\<exists>dk. dedupKey toISO cl = Some dk \<and> pendingEventsFetches s dk = Some p)) \<and>
     (\<forall>p. inflight s p \<noteq> None \<longrightarrow> p < fetches s)"

section \<open>Sample data\<close>

definition appointment :: jsval where
  "appointment =
     JObj [(''id'', JNum (Fin 1)), (''title'', JStr ''Consulta''),
           (''start'', JStr ''2024-01-10T09:00''), (''end'', JStr ''2024-01-10T10:00'')]"

definition open_ended :: jsval where
  "open_ended =
     JObj [(''id'', JNum (Fin 6)), (''title'', JStr ''Retorno''),
           (''start'', JStr ''2024-01-12 14:00:00'')]"

definition garbled :: jsval where
  "garbled =
     JObj [(''id'', JNum (Fin 4)), (''start'', JStr ''amanha''),
           (''end'', JStr ''2024-01-10T10:00'')]"

definition undated :: jsval where
  "undated = JObj [(''id'', JNum (Fin 5)), (''end'', JStr ''2024-01-10T10:00'')]"

definition week_cache :: cache where
  "week_cache =
     \<lparr>cache_key = Some ''3,7|1|'', cache_start = Some (Some 1704067200000),
      cache_end = Some (Some 1706745600000),
      cache_events = [appointment, open_ended, garbled, undated, JNull]\<rparr>"

definition january_cache :: cache where
  "january_cache =
     \<lparr>cache_key = Some ''3,7|1|'', cache_start = Some (isoParse ''2024-01-01T00:00''),
      cache_end = Some (isoParse ''2024-02-01T00:00''), cache_events = [appointment]\<rparr>"

definition checkup_A :: jsval where
  "checkup_A =
     JObj [(''id'', JNum (Fin 1)), (''title'', JStr ''Consulta''),
           (''start'', JStr ''2024-01-10T09:00''), (''end'', JStr ''2024-01-10T10:00''),
           (''extendedProps'', JObj [(''notes'', JStr ''trazer exames'')])]"

definition checkup_B :: jsval where
  "checkup_B =
     JObj [(''id'', JNum (Fin 1)), (''start'', JStr ''2024-01-10T11:00''),
           (''extendedProps'', JObj [(''profissional_id'', JNum (Fin 3))])]"

definition cleaning :: jsval where
  "cleaning =
     JObj [(''id'', JNum (Fin 2)), (''title'', JStr ''Limpeza''),
           (''start'', JStr ''2024-01-12 14:00:00'')]"

definition draft :: jsval where
  "draft = JObj [(''title'', JStr ''Rascunho''), (''start'', JStr ''2024-01-15T08:00'')]"

definition blank_id_event :: jsval where
  "blank_id_event = JObj [(''id'', JStr ''''), (''start'', JStr ''2024-01-10T09:00'')]"

definition january :: "jsdate option \<times> jsdate option" where
  "january = (Some (Some 1704067200000), Some (Some 1706745600000))"

definition empty_storage :: storage where
  "empty_storage = \<lparr>items = Map.empty, blocked = False\<rparr>"

definition day_10 :: call where
  "day_10 =
     \<lparr>call_who = 1, call_has_failure = True, call_key = ''3,7|1|'',
      call_covStart = Some 1704067200000, call_covEnd = Some 1706745600000,
      call_start = Some 1704844800000, call_end = Some 1704931200000\<rparr>"

definition day_12 :: call where
  "day_12 =
     \<lparr>call_who = 2, call_has_failure = True, call_key = ''3,7|1|'',
      call_covStart = Some 1704067200000, call_covEnd = Some 1706745600000,
      call_start = Some 1705017600000, call_end = Some 1705104000000\<rparr>"

definition day_10_again :: call where
  "day_10_again =
     \<lparr>call_who = 3, call_has_failure = True, call_key = ''3,7|1|'',
      call_covStart = Some 1704067200000, call_covEnd = Some 1706745600000,
      call_start = Some 1704844800000, call_end = Some 1704931200000\<rparr>"

definition january_key :: string where
  "january_key = ''3,7|1||2024-01-01T00:00:00.000Z|2024-02-01T00:00:00.000Z''"

definition fetching :: coordinator where
  "fetching =
     \<lparr>sharedCache = sharedEventsCache,
      pendingEventsFetches = [january_key \<mapsto> 0],
      inflight = [0 \<mapsto> (day_10, False)],
      waiting = [], answered = [], fetches = 1\<rparr>"

definition january_events :: cache where
  "january_events =
     \<lparr>cache_key = Some ''3,7|1|'', cache_start = Some (Some 1704067200000),
      cache_end = Some (Some 1706745600000), cache_events = [appointment, open_ended]\<rparr>"


section \<open>Properties of the cache\<close>

lemma iso_values:
  "isoParse ''2024-01-10T08:00'' = Some 1704873600000"
  "isoParse ''2024-01-10T09:00'' = Some 1704877200000"
  "isoParse ''2024-01-10T09:30'' = Some 1704879000000"
  "isoParse ''2024-01-10T10:00'' = Some 1704880800000"
  "isoParse ''2024-01-10T10:01'' = Some 1704880860000"
  "isoParse ''2024-01-11T00:00'' = Some 1704931200000"
  "isoParse ''2024-01-01T00:00'' = Some 1704067200000"
  "isoParse ''2024-02-01T00:00'' = Some 1706745600000"
  by (simp_all add: isoParse_def digit_val_def days_from_civil_def)

lemma getprop_throws: "getprop ev n = None \<longleftrightarrow> ev = JUndefined \<or> ev = JNull"
  by (cases ev) auto

subsection \<open>Coverage\<close>

text \<open>
  Claim C5. \<^verbatim>\<open>cacheCoversRange(rangeStart, rangeEnd, key)\<close> is true iff the stored
  filter key equals \<open>key\<close>, the stored coverage start is at or before \<open>rangeStart\<close> and the
  stored coverage end is at or after \<open>rangeEnd\<close>. So under the stored key a window
  \<open>[s, e)\<close> covers \<open>[qs, qe)\<close> when \<open>s \<le> qs\<close> and \<open>qe \<le> e\<close>, does not cover it when
  \<open>qs < s\<close> or \<open>qe > e\<close>, and a cache whose coverage start or end is unset covers nothing.
\<close>

theorem cacheCoversRange_boundaries:
  "(cacheCoversRange rangeStart rangeEnd k c \<longleftrightarrow>
      cache_key c = Some k \<and>
      (\<exists>s e. cache_start c = Some s \<and> cache_end c = Some e \<and>
             num_le s rangeStart \<and> num_ge e rangeEnd)) \<and>
   (cache_key c = Some k \<and> cache_start c = Some (Some s) \<and> cache_end c = Some (Some e) \<longrightarrow>
      (s \<le> qs \<and> qe \<le> e \<longrightarrow> cacheCoversRange (Some qs) (Some qe) k c) \<and>
      (qs < s \<or> qe > e \<longrightarrow> \<not> cacheCoversRange (Some qs) (Some qe) k c)) \<and>
   (cache_start c = None \<or> cache_end c = None \<longrightarrow> \<not> cacheCoversRange rangeStart rangeEnd k c)"
  by (auto simp: cacheCoversRange_def num_ge_def split: option.splits)

theorem cacheCoversRange_boundaries_witness:
  "cacheCoversRange (isoParse ''2024-01-10T08:00'') (isoParse ''2024-01-10T09:30'')
     ''3,7|1|'' january_cache \<and>
   \<not> cacheCoversRange (isoParse ''2024-01-10T08:00'') (Some 1706745600001)
     ''3,7|1|'' january_cache \<and>
   \<not> cacheCoversRange (isoParse ''2024-01-10T08:00'') (isoParse ''2024-01-10T09:30'')
     ''3,7|1|'' sharedEventsCache"
  using cacheCoversRange_boundaries [of "Some 0" "Some 0" "''3,7|1|''" january_cache
          1704067200000 1706745600000 1704873600000 1704879000000]
        cacheCoversRange_boundaries [of "Some 0" "Some 0" "''3,7|1|''" january_cache
          1704067200000 1706745600000 1704873600000 1706745600001]
        cacheCoversRange_boundaries [of "isoParse ''2024-01-10T08:00''"
          "isoParse ''2024-01-10T09:30''" "''3,7|1|''" sharedEventsCache]
  by (simp add: january_cache_def sharedEventsCache_def iso_values)

subsection \<open>Range query\<close>

lemma overlap_core:
  "(case a of
      None \<Rightarrow> False
    | Some s \<Rightarrow>
        (case b of
           None \<Rightarrow> num_lt s (Some re)
         | Some e \<Rightarrow> num_ge e (Some rs) \<and> num_lt s (Some re))) = overlapsRange rs re a b"
proof (cases a)
  case None
  then show ?thesis by simp
next
  case outer: (Some s)
  show ?thesis
  proof (cases s)
    case None
    with outer show ?thesis by (cases b) simp_all
  next
    case (Some sv)
    show ?thesis
    proof (cases b)
      case None
      with outer Some show ?thesis by simp
    next
      case (Some e)
      with outer \<open>s = Some sv\<close> show ?thesis by (cases e) (simp_all add: num_ge_def)
    qed
  qed
qed

lemma event_dates:
  "event_start parse ev =
     (case getprop ev ''start'' of None \<Rightarrow> None | Some v \<Rightarrow> toDate parse v)"
  "event_end parse ev =
     (case getprop ev ''end'' of None \<Rightarrow> None | Some v \<Rightarrow> toDate parse v)"
  by (simp_all add: event_start_def event_end_def toDate_def split: option.splits)

lemma inRange_overlaps:
  "inRange parse (Some rs) (Some re) ev =
     overlapsRange rs re (event_start parse ev) (event_end parse ev)"
proof (cases "getprop ev ''start''")
  case None
  then show ?thesis by (simp add: inRange_def event_dates)
next
  case (Some sv)
  then have "getprop ev ''end'' \<noteq> None"
    using getprop_throws [of ev "''start''"] getprop_throws [of ev "''end''"] by simp
  then obtain w where "getprop ev ''end'' = Some w" by blast
  with Some show ?thesis
    by (simp add: inRange_def event_dates overlap_core)
qed

lemma eventsFromCache_filter:
  "cache_key c = Some k \<Longrightarrow>
   eventsFromCache parse (Some rs) (Some re) k c =
     filter (\<lambda>ev. overlapsRange rs re (event_start parse ev) (event_end parse ev))
       (cache_events c)"
  by (simp add: eventsFromCache_def inRange_overlaps cong: filter_cong)

lemma eventsFromCache_member:
  "cache_key c = Some k \<Longrightarrow>
   ev \<in> set (eventsFromCache parse (Some rs) (Some re) k c) \<longleftrightarrow>
     ev \<in> set (cache_events c) \<and>
     overlapsRange rs re (event_start parse ev) (event_end parse ev)"
  by (simp add: eventsFromCache_filter)

text \<open>
  Claim C2. \<^verbatim>\<open>eventsFromCache(rangeStart, rangeEnd, key)\<close> returns exactly the cached
  events that overlap the range, in cache order. Under the stored key, an event whose
  \<^verbatim>\<open>start\<close> and \<^verbatim>\<open>end\<close> fields hold the dates \<open>s\<close> and \<open>e\<close> is returned iff
  \<open>e \<ge> rangeStart\<close> and \<open>s < rangeEnd\<close>; an event whose \<^verbatim>\<open>start\<close> holds the date \<open>s\<close> and
  whose \<^verbatim>\<open>end\<close> is absent, \<^verbatim>\<open>null\<close> or empty is returned iff \<open>s < rangeEnd\<close>; an event
  whose \<^verbatim>\<open>start\<close> is absent, \<^verbatim>\<open>null\<close>, empty or not a date is never returned. Under any
  other key the result is the empty list.
\<close>

theorem eventsFromCache_overlap:
  "(cache_key c \<noteq> Some k \<longrightarrow> eventsFromCache parse rangeStart rangeEnd k c = []) \<and>
   (cache_key c = Some k \<longrightarrow>
      eventsFromCache parse (Some rs) (Some re) k c =
        filter (\<lambda>ev. overlapsRange rs re (event_start parse ev) (event_end parse ev))
          (cache_events c) \<and>
      (getprop ev ''start'' = Some (JStr a) \<and> a \<noteq> [] \<and> parse (replace_space a) = Some s \<and>
       getprop ev ''end'' = Some (JStr b) \<and> b \<noteq> [] \<and> parse (replace_space b) = Some e \<longrightarrow>
         (ev \<in> set (eventsFromCache parse (Some rs) (Some re) k c) \<longleftrightarrow>
            ev \<in> set (cache_events c) \<and> e \<ge> rs \<and> s < re)) \<and>
      (getprop ev ''start'' = Some (JStr a) \<and> a \<noteq> [] \<and> parse (replace_space a) = Some s \<and>
       (getprop ev ''end'' = Some JUndefined \<or> getprop ev ''end'' = Some JNull \<or>
        getprop ev ''end'' = Some (JStr [])) \<longrightarrow>
         (ev \<in> set (eventsFromCache parse (Some rs) (Some re) k c) \<longleftrightarrow>
            ev \<in> set (cache_events c) \<and> s < re)) \<and>
      (getprop ev ''start'' = None \<or> getprop ev ''start'' = Some JUndefined \<or>
       getprop ev ''start'' = Some JNull \<or>
       (getprop ev ''start'' = Some (JStr a) \<and> (a = [] \<or> parse (replace_space a) = None)) \<longrightarrow>
         ev \<notin> set (eventsFromCache parse (Some rs) (Some re) k c)))"
proof (intro conjI impI)
  assume "cache_key c \<noteq> Some k"
  then show "eventsFromCache parse rangeStart rangeEnd k c = []"
    by (simp add: eventsFromCache_def)
next
  assume "cache_key c = Some k"
  then show "eventsFromCache parse (Some rs) (Some re) k c =
        filter (\<lambda>ev. overlapsRange rs re (event_start parse ev) (event_end parse ev))
          (cache_events c)"
    by (rule eventsFromCache_filter)
next
  assume k: "cache_key c = Some k"
    and f: "getprop ev ''start'' = Some (JStr a) \<and> a \<noteq> [] \<and> parse (replace_space a) = Some s \<and>
       getprop ev ''end'' = Some (JStr b) \<and> b \<noteq> [] \<and> parse (replace_space b) = Some e"
  then have "event_start parse ev = Some (Some s)" "event_end parse ev = Some (Some e)"
    by (simp_all add: event_start_def event_end_def)
  with eventsFromCache_member [OF k, of ev parse rs re]
  show "ev \<in> set (eventsFromCache parse (Some rs) (Some re) k c) \<longleftrightarrow>
            ev \<in> set (cache_events c) \<and> e \<ge> rs \<and> s < re"
    by simp
next
  assume k: "cache_key c = Some k"
    and f: "getprop ev ''start'' = Some (JStr a) \<and> a \<noteq> [] \<and> parse (replace_space a) = Some s \<and>
       (getprop ev ''end'' = Some JUndefined \<or> getprop ev ''end'' = Some JNull \<or>
        getprop ev ''end'' = Some (JStr []))"
  then have "event_start parse ev = Some (Some s)" "event_end parse ev = None"
    by (auto simp: event_start_def event_end_def)
  with eventsFromCache_member [OF k, of ev parse rs re]
  show "ev \<in> set (eventsFromCache parse (Some rs) (Some re) k c) \<longleftrightarrow>
            ev \<in> set (cache_events c) \<and> s < re"
    by simp
next
  assume k: "cache_key c = Some k"
    and f: "getprop ev ''start'' = None \<or> getprop ev ''start'' = Some JUndefined \<or>
       getprop ev ''start'' = Some JNull \<or>
       (getprop ev ''start'' = Some (JStr a) \<and> (a = [] \<or> parse (replace_space a) = None))"
  have "event_start parse ev = None \<or> event_start parse ev = Some None"
  proof (cases "getprop ev ''start'' = Some (JStr a) \<and> a \<noteq> []")
    case True
    with f have "parse (replace_space a) = None" by auto
    with True show ?thesis by (simp add: event_start_def)
  next
    case False
    with f show ?thesis by (auto simp: event_start_def)
  qed
  then have "\<not> overlapsRange rs re (event_start parse ev) (event_end parse ev)"
    by auto
  with eventsFromCache_member [OF k, of ev parse rs re]
  show "ev \<notin> set (eventsFromCache parse (Some rs) (Some re) k c)"
    by simp
qed

theorem eventsFromCache_overlap_witness:
  "appointment \<in> set (eventsFromCache isoParse (Some 1704873600000) (Some 1705104000000)
                        ''3,7|1|'' week_cache) \<and>
   appointment \<notin> set (eventsFromCache isoParse (Some 1704880800001) (Some 1705104000000)
                        ''3,7|1|'' week_cache) \<and>
   open_ended \<in> set (eventsFromCache isoParse (Some 1704873600000) (Some 1705104000000)
                       ''3,7|1|'' week_cache) \<and>
   open_ended \<notin> set (eventsFromCache isoParse (Some 1704873600000) (Some 1705068000000)
                       ''3,7|1|'' week_cache) \<and>
   garbled \<notin> set (eventsFromCache isoParse (Some 1704873600000) (Some 1705104000000)
                    ''3,7|1|'' week_cache) \<and>
   undated \<notin> set (eventsFromCache isoParse (Some 1704873600000) (Some 1705104000000)
                    ''3,7|1|'' week_cache) \<and>
   JNull \<notin> set (eventsFromCache isoParse (Some 1704873600000) (Some 1705104000000)
                  ''3,7|1|'' week_cache) \<and>
   eventsFromCache isoParse (Some 1704873600000) (Some 1705104000000) ''3,7|1|'' week_cache =
     [appointment, open_ended] \<and>
   eventsFromCache isoParse (Some 1704873600000) (Some 1705104000000) ''3,7||'' week_cache = []"
proof -
  have k: "cache_key week_cache = Some ''3,7|1|''" and nk: "cache_key week_cache \<noteq> Some ''3,7||''"
    by (simp_all add: week_cache_def)
  have t: "isoParse ''2024-01-12T14:00:00'' = Some 1705068000000"
    by (simp add: isoParse_def digit_val_def days_from_civil_def)
  have both: "getprop appointment ''start'' = Some (JStr ''2024-01-10T09:00'') \<and>
      ''2024-01-10T09:00'' \<noteq> [] \<and>
      isoParse (replace_space ''2024-01-10T09:00'') = Some 1704877200000 \<and>
      getprop appointment ''end'' = Some (JStr ''2024-01-10T10:00'') \<and>
      ''2024-01-10T10:00'' \<noteq> [] \<and>
      isoParse (replace_space ''2024-01-10T10:00'') = Some 1704880800000"
    by (simp add: appointment_def iso_values)
  have only_start: "getprop open_ended ''start'' = Some (JStr ''2024-01-12 14:00:00'') \<and>
      ''2024-01-12 14:00:00'' \<noteq> [] \<and>
      isoParse (replace_space ''2024-01-12 14:00:00'') = Some 1705068000000 \<and>
      (getprop open_ended ''end'' = Some JUndefined \<or> getprop open_ended ''end'' = Some JNull \<or>
       getprop open_ended ''end'' = Some (JStr []))"
    by (simp add: open_ended_def t)
  have bad: "getprop garbled ''start'' = None \<or> getprop garbled ''start'' = Some JUndefined \<or>
      getprop garbled ''start'' = Some JNull \<or>
      (getprop garbled ''start'' = Some (JStr ''amanha'') \<and>
       (''amanha'' = [] \<or> isoParse (replace_space ''amanha'') = None))"
    by (simp add: garbled_def isoParse_def)
  have none: "getprop undated ''start'' = None \<or> getprop undated ''start'' = Some JUndefined \<or>
      getprop undated ''start'' = Some JNull \<or>
      (getprop undated ''start'' = Some (JStr []) \<and>
       ([] = [] \<or> isoParse (replace_space []) = None))"
    by (simp add: undated_def)
  have null: "getprop JNull ''start'' = None \<or> getprop JNull ''start'' = Some JUndefined \<or>
      getprop JNull ''start'' = Some JNull \<or>
      (getprop JNull ''start'' = Some (JStr []) \<and>
       ([] = [] \<or> isoParse (replace_space []) = None))"
    by simp
  have mem: "appointment \<in> set (cache_events week_cache)"
    "open_ended \<in> set (cache_events week_cache)"
    by (simp_all add: week_cache_def)
  note wide = eventsFromCache_overlap [where c = week_cache and k = "''3,7|1|''"
      and parse = isoParse and rs = 1704873600000 and re = 1705104000000]
  have ar: "(1704880800000::int) \<ge> 1704873600000" "(1704877200000::int) < 1705104000000"
    "\<not> (1704880800000::int) \<ge> 1704880800001" "(1705068000000::int) < 1705104000000"
    "\<not> (1705068000000::int) < 1705068000000"
    by simp_all
  have 1: "appointment \<in> set (eventsFromCache isoParse (Some 1704873600000)
             (Some 1705104000000) ''3,7|1|'' week_cache)"
    using wide [where ev = appointment and a = "''2024-01-10T09:00''" and s = 1704877200000
        and b = "''2024-01-10T10:00''" and e = 1704880800000] k both mem ar by blast
  have 2: "appointment \<notin> set (eventsFromCache isoParse (Some 1704880800001)
             (Some 1705104000000) ''3,7|1|'' week_cache)"
    using eventsFromCache_overlap [where c = week_cache and k = "''3,7|1|''"
        and parse = isoParse and rs = 1704880800001 and re = 1705104000000
        and ev = appointment and a = "''2024-01-10T09:00''" and s = 1704877200000
        and b = "''2024-01-10T10:00''" and e = 1704880800000] k both ar by blast
  have 3: "open_ended \<in> set (eventsFromCache isoParse (Some 1704873600000)
             (Some 1705104000000) ''3,7|1|'' week_cache)"
    using wide [where ev = open_ended and a = "''2024-01-12 14:00:00''"
        and s = 1705068000000] k only_start mem ar by blast
  have 4: "open_ended \<notin> set (eventsFromCache isoParse (Some 1704873600000)
             (Some 1705068000000) ''3,7|1|'' week_cache)"
    using eventsFromCache_overlap [where c = week_cache and k = "''3,7|1|''"
        and parse = isoParse and rs = 1704873600000 and re = 1705068000000
        and ev = open_ended and a = "''2024-01-12 14:00:00''" and s = 1705068000000]
      k only_start ar by blast
  have 5: "garbled \<notin> set (eventsFromCache isoParse (Some 1704873600000)
             (Some 1705104000000) ''3,7|1|'' week_cache)"
    using wide [where ev = garbled and a = "''amanha''"] k bad by blast
  have 6: "undated \<notin> set (eventsFromCache isoParse (Some 1704873600000)
             (Some 1705104000000) ''3,7|1|'' week_cache)"
    using wide [where ev = undated and a = "[]"] k none by blast
  have 7: "JNull \<notin> set (eventsFromCache isoParse (Some 1704873600000)
             (Some 1705104000000) ''3,7|1|'' week_cache)"
    using wide [where ev = JNull and a = "[]"] k null by blast
  have 8: "eventsFromCache isoParse (Some 1704873600000) (Some 1705104000000) ''3,7|1|''
             week_cache = [appointment, open_ended]"
  proof -
    have "eventsFromCache isoParse (Some 1704873600000) (Some 1705104000000) ''3,7|1|''
            week_cache =
          filter (\<lambda>ev. overlapsRange 1704873600000 1705104000000 (event_start isoParse ev)
                          (event_end isoParse ev)) (cache_events week_cache)"
      using wide k by blast
    then show ?thesis
      by (simp add: week_cache_def appointment_def open_ended_def garbled_def undated_def
            event_start_def event_end_def iso_values t isoParse_def [of "''amanha''"])
  qed
  have 9: "eventsFromCache isoParse (Some 1704873600000) (Some 1705104000000) ''3,7||''
             week_cache = []"
    using eventsFromCache_overlap [where c = week_cache and k = "''3,7||''"
        and parse = isoParse and rangeStart = "Some 1704873600000"
        and rangeEnd = "Some 1705104000000"] nk by blast
  from 1 2 3 4 5 6 7 8 9 show ?thesis by blast
qed

text \<open>
  Claim C3, as the specification states it, has the query over
  \<open>[2024-01-10T10:00, 2024-01-11T00:00)\<close> exclude an event that ends at 10:00. The filter
  tests \<open>end \<ge> rangeStart\<close>, so the event is returned.
\<close>

theorem range_filter_touching_counterexample:
  "eventsFromCache isoParse (isoParse ''2024-01-10T10:00'') (isoParse ''2024-01-11T00:00'')
     ''3,7|1|'' january_cache = [appointment]"
  by (simp add: eventsFromCache_def january_cache_def appointment_def inRange_def toDate_def
        iso_values num_ge_def)

text \<open>
  Claim C3, amended. A cached event with start \<open>2024-01-10T09:00\<close> and end
  \<open>2024-01-10T10:00\<close> is, under the stored key, in the result of the query over
  \<open>[2024-01-10T08:00, 2024-01-10T09:30)\<close> and also in the result of the query over
  \<open>[2024-01-10T10:00, 2024-01-11T00:00)\<close>, whose start its end touches; a range that
  starts after its end, \<open>[2024-01-10T10:01, 2024-01-11T00:00)\<close>, leaves it out.
\<close>

theorem range_filter_example:
  assumes "cache_key c = Some k" and "ev \<in> set (cache_events c)"
    and "getprop ev ''start'' = Some (JStr ''2024-01-10T09:00'')"
    and "getprop ev ''end'' = Some (JStr ''2024-01-10T10:00'')"
  shows "ev \<in> set (eventsFromCache isoParse (isoParse ''2024-01-10T08:00'')
                    (isoParse ''2024-01-10T09:30'') k c) \<and>
         ev \<in> set (eventsFromCache isoParse (isoParse ''2024-01-10T10:00'')
                    (isoParse ''2024-01-11T00:00'') k c) \<and>
         ev \<notin> set (eventsFromCache isoParse (isoParse ''2024-01-10T10:01'')
                    (isoParse ''2024-01-11T00:00'') k c)"
  using assms
  by (simp add: eventsFromCache_def inRange_def toDate_def iso_values num_ge_def)

theorem range_filter_example_witness:
  "appointment \<in> set (eventsFromCache isoParse (isoParse ''2024-01-10T08:00'')
                    (isoParse ''2024-01-10T09:30'') ''3,7|1|'' january_cache) \<and>
   appointment \<in> set (eventsFromCache isoParse (isoParse ''2024-01-10T10:00'')
                    (isoParse ''2024-01-11T00:00'') ''3,7|1|'' january_cache) \<and>
   appointment \<notin> set (eventsFromCache isoParse (isoParse ''2024-01-10T10:01'')
                    (isoParse ''2024-01-11T00:00'') ''3,7|1|'' january_cache)"
proof -
  have 1: "cache_key january_cache = Some ''3,7|1|''"
    by (simp add: january_cache_def)
  have 2: "appointment \<in> set (cache_events january_cache)"
    by (simp add: january_cache_def)
  have 3: "getprop appointment ''start'' = Some (JStr ''2024-01-10T09:00'')"
    by (simp add: appointment_def)
  have 4: "getprop appointment ''end'' = Some (JStr ''2024-01-10T10:00'')"
    by (simp add: appointment_def)
  show ?thesis by (rule range_filter_example [OF 1 2 3 4])
qed

subsection \<open>Key isolation\<close>

lemma cacheAfterStore_key:
  "cache_key (cacheAfterStore list covStart covEnd k c) = Some k"
  by (auto simp: cacheAfterStore_def storeEventsToCache_def Let_def split: option.splits)

text \<open>
  Claim C7. For filter keys \<open>k1 \<noteq> k2\<close>, after \<^verbatim>\<open>storeEventsToCache\<close> has absorbed any
  list with any coverage under \<open>k1\<close>, a query of any range under \<open>k2\<close> returns the empty
  list; and in every cache state a query returns events only when the key it is given
  is the stored key.
\<close>

theorem key_isolation:
  "(k1 \<noteq> k2 \<longrightarrow>
      eventsFromCache parse rangeStart rangeEnd k2
        (cacheAfterStore list covStart covEnd k1 c) = []) \<and>
   (eventsFromCache parse rangeStart rangeEnd k c \<noteq> [] \<longrightarrow> cache_key c = Some k)"
  by (auto simp: eventsFromCache_def cacheAfterStore_key)

theorem key_isolation_witness:
  "''3,7|1|'' \<noteq> ''3,7||'' \<and>
   eventsFromCache isoParse (isoParse ''2024-01-10T08:00'') (isoParse ''2024-01-10T09:30'')
     ''3,7||''
     (cacheAfterStore [appointment] (Some (isoParse ''2024-01-01T00:00''))
        (Some (isoParse ''2024-02-01T00:00'')) ''3,7|1|'' sharedEventsCache) = [] \<and>
   eventsFromCache isoParse (isoParse ''2024-01-10T08:00'') (isoParse ''2024-01-10T09:30'')
     ''3,7|1|'' january_cache \<noteq> [] \<and>
   cache_key january_cache = Some ''3,7|1|''"
proof -
  have ne: "''3,7|1|'' \<noteq> ''3,7||''" by simp
  have nonempty: "eventsFromCache isoParse (isoParse ''2024-01-10T08:00'')
     (isoParse ''2024-01-10T09:30'') ''3,7|1|'' january_cache \<noteq> []"
    by (simp add: eventsFromCache_def january_cache_def appointment_def inRange_def toDate_def
          iso_values num_ge_def)
  from key_isolation [of "''3,7|1|''" "''3,7||''"] ne
       key_isolation [where parse = isoParse and rangeStart = "isoParse ''2024-01-10T08:00''"
         and rangeEnd = "isoParse ''2024-01-10T09:30''" and k = "''3,7|1|''"
         and c = january_cache] nonempty
  show ?thesis by blast
qed

subsection \<open>The merge map\<close>

lemma keys_map_set_old: "k \<in> fst ` set m \<Longrightarrow> map fst (map_set m k v) = map fst m"
  by (induction m) force+

lemma keys_map_set_new: "k \<notin> fst ` set m \<Longrightarrow> map fst (map_set m k v) = map fst m @ [k]"
  by (induction m) force+

lemma keys_map_set:
  "map fst (map_set m k v) = (if k \<in> fst ` set m then map fst m else map fst m @ [k])"
  using keys_map_set_old keys_map_set_new by metis

lemma set_map_set: "set (map_set m k v) \<subseteq> insert (k, v) (set m)"
  by (induction m) (auto split: if_splits)

lemma map_of_map_set: "map_of (map_set m k v) = (map_of m)(k \<mapsto> v)"
  by (induction m) auto

lemma good_Nil: "good []"
  by (simp add: good_def)

lemma good_map_set:
  assumes "good m" and "idKey e = Some k"
  shows "good (map_set m k e)"
proof -
  have "distinct (map fst (map_set m k e))"
    using assms(1) by (auto simp: keys_map_set good_def)
  moreover have "\<forall>(k', v) \<in> set (map_set m k e). idKey v = Some k'"
    using assms set_map_set [of m k e] by (auto simp: good_def)
  ultimately show ?thesis by (simp add: good_def)
qed

lemma map_set_fresh: "k \<notin> fst ` set m \<Longrightarrow> map_set m k v = m @ [(k, v)]"
  by (induction m) auto

lemma entries_snd: "entries es = Some ps \<Longrightarrow> map snd ps = es"
  by (induction es arbitrary: ps) (auto split: option.splits)

lemma entries_fst: "entries es = Some ps \<Longrightarrow> map Some (map fst ps) = map idKey es"
  by (induction es arbitrary: ps) (auto split: option.splits)

lemma entries_values:
  "(\<forall>(k, v) \<in> set m. idKey v = Some k) \<Longrightarrow> entries (map snd m) = Some m"
  by (induction m) (auto split: option.splits)

lemma set_each_foldl:
  "entries L = Some ps \<Longrightarrow> set_each m L = Some (foldl (\<lambda>m (k, v). map_set m k v) m ps)"
proof (induction L arbitrary: m ps)
  case Nil
  then show ?case by simp
next
  case (Cons e L)
  then show ?case by (auto split: option.splits)
qed

lemma set_each_None: "entries L = None \<Longrightarrow> set_each m L = None"
  by (induction L arbitrary: m) (auto split: option.splits)

lemma set_each_good:
  "good m \<Longrightarrow> set_each m L = Some m' \<Longrightarrow> good m'"
proof (induction L arbitrary: m)
  case Nil
  then show ?case by simp
next
  case (Cons e L)
  then show ?case by (auto split: option.splits intro: good_map_set)
qed

lemma Map_new_good:
  assumes "entries es = Some ps"
  shows "good (Map_new ps)"
proof -
  from set_each_foldl [OF assms, of "[]"]
  have "set_each [] es = Some (Map_new ps)" by (simp add: Map_new_def)
  with good_Nil show ?thesis by (rule set_each_good)
qed

lemma set_each_keys_mono:
  "set_each m L = Some m' \<Longrightarrow> fst ` set m \<subseteq> fst ` set m'"
proof (induction L arbitrary: m)
  case Nil
  then show ?case by simp
next
  case (Cons e L)
  from Cons.prems obtain k where k: "idKey e = Some k" and r: "set_each (map_set m k e) L = Some m'"
    by (auto split: option.splits)
  have "fst ` set m \<subseteq> set (map fst (map_set m k e))"
    by (auto simp: keys_map_set)
  with Cons.IH [OF r] show ?case by auto
qed

lemma set_each_last:
  "set_each m (xs @ B # ys) = Some m' \<Longrightarrow> idKey B = Some i \<Longrightarrow>
   \<forall>y \<in> set ys. idKey y \<noteq> Some i \<Longrightarrow> map_of m' i = Some B"
proof (induction xs arbitrary: m)
  case Nil
  then have r: "set_each (map_set m i B) ys = Some m'" by simp
  have "\<forall>y \<in> set ys. idKey y \<noteq> Some i \<Longrightarrow> set_each n ys = Some m' \<Longrightarrow>
        map_of n i = Some B \<Longrightarrow> map_of m' i = Some B" for n
  proof (induction ys arbitrary: n)
    case Nil
    then show ?case by simp
  next
    case (Cons y ys)
    then show ?case by (auto split: option.splits simp: map_of_map_set)
  qed
  from this [OF Nil.prems(3) r] show ?case by (simp add: map_of_map_set)
next
  case (Cons x xs)
  then show ?case by (auto split: option.splits)
qed

lemma good_filter:
  "good m \<Longrightarrow> filter (\<lambda>e. idKey e = Some i) (map snd m) =
     (case map_of m i of None \<Rightarrow> [] | Some v \<Rightarrow> [v])"
proof (induction m)
  case Nil
  then show ?case by simp
next
  case (Cons p m)
  obtain k v where p: "p = (k, v)" by (cases p)
  from Cons.prems have g: "good m" and kv: "idKey v = Some k" and fresh: "k \<notin> fst ` set m"
    by (auto simp: good_def p)
  show ?case
  proof (cases "k = i")
    case True
    have "filter (\<lambda>e. idKey e = Some i) (map snd m) = []"
    proof -
      have "map_of m i = None" using fresh True by (simp add: map_of_eq_None_iff)
      with Cons.IH [OF g] show ?thesis by simp
    qed
    with True kv p show ?thesis by simp
  next
    case False
    with Cons.IH [OF g] kv p show ?thesis by simp
  qed
qed

lemma store_established:
  assumes "storeEventsToCache L (Some s) (Some e) k c = Some c'"
  shows "cache_key c' = Some k \<and> cache_start c' \<noteq> None \<and> cache_end c' \<noteq> None"
proof (cases "cache_key c \<noteq> Some k \<or> cache_start c = None \<or> cache_end c = None")
  case True
  with assms show ?thesis by (auto simp: storeEventsToCache_def)
next
  case False
  then obtain s0 e0 where "cache_start c = Some s0" "cache_end c = Some e0" by auto
  with False assms show ?thesis
    by (auto simp: storeEventsToCache_def split: option.splits)
qed

lemma store_merge:
  assumes "cache_key c = Some k" and "cache_start c \<noteq> None" and "cache_end c \<noteq> None"
    and "storeEventsToCache L cs ce k c = Some c'"
  obtains ps byId where "entries (cache_events c) = Some ps"
    and "set_each (Map_new ps) L = Some byId"
    and "c' = \<lparr>cache_key = Some k, cache_start = widen_start cs (cache_start c),
               cache_end = widen_end ce (cache_end c), cache_events = map snd byId\<rparr>"
  using assms by (auto simp: storeEventsToCache_def split: option.splits)

lemma assoc_eqI:
  "map fst a = map fst b \<Longrightarrow> distinct (map fst a) \<Longrightarrow> map_of a = map_of b \<Longrightarrow> a = b"
proof (induction a arbitrary: b)
  case Nil
  then show ?case by simp
next
  case (Cons p a)
  then obtain q b' where b: "b = q # b'" by (cases b) auto
  obtain k v where p: "p = (k, v)" by (cases p)
  obtain w where q: "q = (k, w)" using Cons.prems(1) b p by (cases q) auto
  have keys: "map fst a = map fst b'" using Cons.prems(1) b by simp
  have fresh_a: "k \<notin> fst ` set a" using Cons.prems(2) p by simp
  have "fst ` set b' = fst ` set a" using keys by (metis list.set_map)
  with fresh_a have fresh: "k \<notin> fst ` set a" "k \<notin> fst ` set b'" by simp_all
  from Cons.prems(3) have "map_of (p # a) = map_of (q # b')" unfolding b .
  then have eq: "map_of (p # a) x = map_of (q # b') x" for x by (rule fun_cong)
  from eq [of k] have vw: "v = w" using p q by simp
  have "map_of a x = map_of b' x" for x
  proof (cases "x = k")
    case True
    have "map_of a k = None" "map_of b' k = None"
      using fresh by (simp_all add: map_of_eq_None_iff)
    with True show ?thesis by simp
  next
    case False
    with eq [of x] p q show ?thesis by simp
  qed
  then have "map_of a = map_of b'" by (rule ext)
  with Cons.IH [OF keys] Cons.prems(2) have "a = b'" by simp
  with vw p q b show ?case by simp
qed

lemma set_each_present:
  "\<forall>e \<in> set L. \<exists>k. idKey e = Some k \<and> k \<in> fst ` set m \<Longrightarrow>
   \<exists>m'. set_each m L = Some m' \<and> map fst m' = map fst m"
proof (induction L arbitrary: m)
  case Nil
  then show ?case by simp
next
  case (Cons e L)
  then obtain k where k: "idKey e = Some k" "k \<in> fst ` set m" by auto
  have keys: "map fst (map_set m k e) = map fst m" using k(2) by (rule keys_map_set_old)
  then have "fst ` set (map_set m k e) = fst ` set m" by (metis list.set_map)
  with Cons.prems have "\<forall>x \<in> set L. \<exists>j. idKey x = Some j \<and> j \<in> fst ` set (map_set m k e)"
    by simp
  from Cons.IH [OF this] keys k(1) show ?case by simp
qed

lemma set_each_keys_in:
  "set_each m L = Some m' \<Longrightarrow> \<forall>e \<in> set L. \<exists>k. idKey e = Some k \<and> k \<in> fst ` set m'"
proof (induction L arbitrary: m)
  case Nil
  then show ?case by simp
next
  case (Cons e L)
  from Cons.prems obtain k where k: "idKey e = Some k" and r: "set_each (map_set m k e) L = Some m'"
    by (auto split: option.splits)
  have "k \<in> set (map fst (map_set m k e))" by (simp add: keys_map_set)
  then have "k \<in> fst ` set (map_set m k e)" by simp
  with set_each_keys_mono [OF r] have "k \<in> fst ` set m'" by blast
  with k Cons.IH [OF r] show ?case by simp
qed

lemma set_each_map_of:
  "set_each m L = Some m' \<Longrightarrow> set_each n L = Some n' \<Longrightarrow>
   map_of n' k = (if \<exists>e \<in> set L. idKey e = Some k then map_of m' k else map_of n k)"
proof (induction L arbitrary: m n n')
  case Nil
  then show ?case by simp
next
  case (Cons e L)
  from Cons.prems obtain j where j: "idKey e = Some j"
    and rm: "set_each (map_set m j e) L = Some m'"
    and rn: "set_each (map_set n j e) L = Some n'"
    by (auto split: option.splits)
  note ih = Cons.IH [OF rm rn] Cons.IH [OF rm rm]
  show ?case
  proof (cases "\<exists>e \<in> set L. idKey e = Some k")
    case True
    with ih(1) show ?thesis by auto
  next
    case False
    with ih j show ?thesis by (auto simp: map_of_map_set)
  qed
qed

lemma set_each_idem:
  assumes g: "good m" and r: "set_each m L = Some m'"
  shows "set_each m' L = Some m'"
proof -
  from set_each_present [OF set_each_keys_in [OF r]]
  obtain m'' where r': "set_each m' L = Some m''" and keys: "map fst m'' = map fst m'" by blast
  have "map_of m'' k = map_of m' k" for k
    using set_each_map_of [OF r r', of k] by simp
  then have "map_of m'' = map_of m'" by (rule ext)
  moreover have "distinct (map fst m'')" using set_each_good [OF g r] keys by (simp add: good_def)
  ultimately have "m'' = m'" using keys by (intro assoc_eqI)
  with r' show ?thesis by simp
qed

lemma foldl_map_set_distinct:
  "distinct (map fst (acc @ ps)) \<Longrightarrow> foldl (\<lambda>m (k, v). map_set m k v) acc ps = acc @ ps"
proof (induction ps arbitrary: acc)
  case Nil
  then show ?case by simp
next
  case (Cons p ps)
  obtain k v where p: "p = (k, v)" by (cases p)
  have "k \<notin> fst ` set acc" using Cons.prems p by auto
  then have "map_set acc k v = acc @ [(k, v)]" by (rule map_set_fresh)
  with Cons.IH [of "acc @ [p]"] Cons.prems p show ?case by simp
qed

lemma Map_new_distinct: "distinct (map fst ps) \<Longrightarrow> Map_new ps = ps"
  using foldl_map_set_distinct [of "[]" ps] by (simp add: Map_new_def)

lemma widen_start_idem: "widen_start cs (widen_start cs old) = widen_start cs old"
  by (cases "(cs, old)" rule: widen_start.cases) auto

lemma widen_end_idem: "widen_end ce (widen_end ce old) = widen_end ce old"
  by (cases "(ce, old)" rule: widen_end.cases) (auto simp: num_gt_def)

lemma widen_start_self: "widen_start cs cs = cs"
  by (cases cs) auto

lemma widen_end_self: "widen_end ce ce = ce"
  by (cases ce) (auto simp: num_gt_def)

lemma small_ints [simp]:
  "int_to_string 1 = ''1''" "int_to_string 2 = ''2''" "int_to_string 3 = ''3''"
  by (simp_all add: int_to_string_def dec.simps digit_char_def)

lemma sample_ids [simp]:
  "idKey checkup_A = Some ''1''" "idKey checkup_B = Some ''1''" "idKey cleaning = Some ''2''"
  "idKey appointment = Some ''1''" "idKey draft = Some ''undefined''"
  "idKey blank_id_event = Some ''''"
  by (simp_all add: idKey_def checkup_A_def checkup_B_def cleaning_def appointment_def
        draft_def blank_id_event_def)

subsection \<open>Absorbing two responses\<close>

text \<open>
  Claim C1, as the specification states it, has the second response merged field by
  field over the first. \<^verbatim>\<open>storeEventsToCache\<close> files the incoming object under its id
  in place of the stored one: after \<open>[checkup_A]\<close> and then \<open>[checkup_B]\<close> the cache holds
  \<open>checkup_B\<close> alone, without the title of \<open>checkup_A\<close> and with the \<^verbatim>\<open>extendedProps\<close> of
  \<open>checkup_B\<close> only.
\<close>

theorem absorb_merge_counterexample:
  "cache_events
     (cacheAfterStore [checkup_B] (fst january) (snd january) ''3,7|1|''
        (cacheAfterStore [checkup_A] (fst january) (snd january) ''3,7|1|'' sharedEventsCache))
     = [checkup_B] \<and>
   getprop checkup_A ''title'' = Some (JStr ''Consulta'') \<and>
   getprop checkup_B ''title'' = Some JUndefined \<and>
   getprop checkup_A ''extendedProps'' = Some (JObj [(''notes'', JStr ''trazer exames'')]) \<and>
   getprop checkup_B ''extendedProps'' = Some (JObj [(''profissional_id'', JNum (Fin 3))])"
  by (simp add: cacheAfterStore_def storeEventsToCache_def sharedEventsCache_def january_def
        Map_new_def)
     (simp add: checkup_A_def checkup_B_def)

text \<open>
  Claim C1, amended. For every cache state and filter key \<open>k\<close>, when a list is absorbed
  and then a second list, both under \<open>k\<close> with coverage bounds that are dates, and \<open>B\<close> is
  the last event of the second list whose id prints as \<open>i\<close>, the cache afterwards holds
  exactly one event whose id prints as \<open>i\<close>, and it is \<open>B\<close> itself: the incoming object
  replaces the stored one as a whole.
\<close>

theorem absorb_replaces_by_id:
  assumes first: "storeEventsToCache L1 (Some s1) (Some e1) k c = Some c1"
    and second: "storeEventsToCache L2 (Some s2) (Some e2) k c1 = Some c2"
    and last: "L2 = xs @ B # ys" "idKey B = Some i" "\<forall>y \<in> set ys. idKey y \<noteq> Some i"
  shows "filter (\<lambda>e. idKey e = Some i) (cache_events c2) = [B]"
proof -
  from store_established [OF first]
  have c1: "cache_key c1 = Some k" "cache_start c1 \<noteq> None" "cache_end c1 \<noteq> None" by simp_all
  from store_merge [OF c1 second] obtain ps byId where
    ps: "entries (cache_events c1) = Some ps" and
    byId: "set_each (Map_new ps) L2 = Some byId" and
    ev: "cache_events c2 = map snd byId" by (metis cache.select_convs(4))
  have g: "good byId" using Map_new_good [OF ps] byId by (rule set_each_good)
  have "map_of byId i = Some B" using byId last by (auto intro: set_each_last)
  with good_filter [OF g, of i] ev show ?thesis by simp
qed

theorem absorb_replaces_by_id_witness:
  "filter (\<lambda>e. idKey e = Some ''1'')
     (cache_events \<lparr>cache_key = Some ''3,7|1|'', cache_start = fst january,
        cache_end = snd january, cache_events = [checkup_B, cleaning]\<rparr>) = [checkup_B]"
proof -
  let ?c1 = "\<lparr>cache_key = Some ''3,7|1|'', cache_start = fst january,
        cache_end = snd january, cache_events = [checkup_A, cleaning]\<rparr>"
  let ?c2 = "\<lparr>cache_key = Some ''3,7|1|'', cache_start = fst january,
        cache_end = snd january, cache_events = [checkup_B, cleaning]\<rparr>"
  have 1: "storeEventsToCache [checkup_A, cleaning] (Some (Some 1704067200000))
             (Some (Some 1706745600000)) ''3,7|1|'' sharedEventsCache = Some ?c1"
    by (simp add: storeEventsToCache_def sharedEventsCache_def january_def)
  have 2: "storeEventsToCache [checkup_B] (Some (Some 1704067200000))
             (Some (Some 1706745600000)) ''3,7|1|'' ?c1 = Some ?c2"
    by (simp add: storeEventsToCache_def january_def Map_new_def num_gt_def)
  have 3: "[checkup_B] = [] @ checkup_B # []" by simp
  have 4: "idKey checkup_B = Some ''1''" by simp
  have 5: "\<forall>y \<in> set []. idKey y \<noteq> Some ''1''" by simp
  show ?thesis by (rule absorb_replaces_by_id [OF 1 2 3 4 5])
qed

subsection \<open>Absorbing the same response twice\<close>

lemma store_idem_Some:
  assumes d: "distinct (map idKey L)"
    and r: "storeEventsToCache L cs ce k c = Some c1"
  shows "cacheAfterStore L cs ce k c1 = c1"
proof (cases "cache_key c \<noteq> Some k \<or> cache_start c = None \<or> cache_end c = None")
  case True
  with r have c1: "c1 = \<lparr>cache_key = Some k, cache_start = cs, cache_end = ce, cache_events = L\<rparr>"
    by (auto simp: storeEventsToCache_def)
  show ?thesis
  proof (cases "cs = None \<or> ce = None")
    case True
    then show ?thesis by (auto simp: cacheAfterStore_def storeEventsToCache_def c1)
  next
    case False
    then have set: "cache_key c1 = Some k" "cache_start c1 \<noteq> None" "cache_end c1 \<noteq> None"
      by (simp_all add: c1)
    show ?thesis
    proof (cases "storeEventsToCache L cs ce k c1")
      case None
      then show ?thesis by (simp add: cacheAfterStore_def)
    next
      case (Some c2)
      from store_merge [OF set Some] obtain ps byId where
        ps: "entries (cache_events c1) = Some ps" and
        byId: "set_each (Map_new ps) L = Some byId" and
        c2: "c2 = \<lparr>cache_key = Some k, cache_start = widen_start cs (cache_start c1),
                   cache_end = widen_end ce (cache_end c1), cache_events = map snd byId\<rparr>"
        by blast
      from ps have psL: "entries L = Some ps" by (simp add: c1)
      have "distinct (map Some (map fst ps))" using entries_fst [OF psL] d by simp
      then have dps: "distinct (map fst ps)"
        using distinct_map [of Some "map fst ps"] by blast
      have new: "Map_new ps = ps" using dps by (rule Map_new_distinct)
      have "set_each [] L = Some (Map_new ps)"
        using set_each_foldl [OF psL, of "[]"] by (simp add: Map_new_def)
      from set_each_idem [OF good_Nil this] byId new have "byId = ps" by simp
      then have "map snd byId = L" using entries_snd [OF psL] by simp
      with c2 Some show ?thesis
        by (simp add: cacheAfterStore_def c1 widen_start_self widen_end_self)
    qed
  qed
next
  case False
  then have set: "cache_key c = Some k" "cache_start c \<noteq> None" "cache_end c \<noteq> None"
    by simp_all
  from store_merge [OF set r] obtain ps byId where
    ps: "entries (cache_events c) = Some ps" and
    byId: "set_each (Map_new ps) L = Some byId" and
    c1: "c1 = \<lparr>cache_key = Some k, cache_start = widen_start cs (cache_start c),
               cache_end = widen_end ce (cache_end c), cache_events = map snd byId\<rparr>"
    by blast
  have g: "good byId" using Map_new_good [OF ps] byId by (rule set_each_good)
  then have e1: "entries (cache_events c1) = Some byId"
    by (simp add: c1 good_def entries_values)
  have n1: "Map_new byId = byId" using g by (simp add: good_def Map_new_distinct)
  have s1: "set_each byId L = Some byId" using Map_new_good [OF ps] byId by (rule set_each_idem)
  from set obtain s0 e0 where se: "cache_start c = Some s0" "cache_end c = Some e0" by auto
  have w: "widen_start cs (Some s0) \<noteq> None" "widen_end ce (Some e0) \<noteq> None"
    by (cases cs; simp) (cases ce; simp)
  have "storeEventsToCache L cs ce k c1 = Some c1"
    using e1 n1 s1 w
    by (auto simp: storeEventsToCache_def c1 se widen_start_idem widen_end_idem)
  then show ?thesis by (simp add: cacheAfterStore_def)
qed

text \<open>
  Claim C8, as the specification states it, holds for every list. A list in which two
  events carry the same id is kept as it is when it replaces the cache and loses the
  first of the two when it is merged, so the second absorb changes the query result.
\<close>

theorem absorb_twice_counterexample:
  "eventsFromCache isoParse (isoParse ''2024-01-10T08:00'') (isoParse ''2024-01-11T00:00'')
     ''3,7|1|''
     (cacheAfterStore [checkup_A, checkup_B] (fst january) (snd january) ''3,7|1|''
        sharedEventsCache) = [checkup_A, checkup_B] \<and>
   eventsFromCache isoParse (isoParse ''2024-01-10T08:00'') (isoParse ''2024-01-11T00:00'')
     ''3,7|1|''
     (cacheAfterStore [checkup_A, checkup_B] (fst january) (snd january) ''3,7|1|''
        (cacheAfterStore [checkup_A, checkup_B] (fst january) (snd january) ''3,7|1|''
           sharedEventsCache)) = [checkup_B]"
proof -
  have t: "isoParse ''2024-01-10T11:00'' = Some 1704884400000"
    by (simp add: isoParse_def digit_val_def days_from_civil_def)
  have a: "inRange isoParse (Some 1704873600000) (Some 1704931200000) checkup_A"
    by (simp add: inRange_def checkup_A_def toDate_def iso_values num_ge_def)
  have b: "inRange isoParse (Some 1704873600000) (Some 1704931200000) checkup_B"
    by (simp add: inRange_def checkup_B_def toDate_def t)
  show ?thesis
    by (simp add: cacheAfterStore_def storeEventsToCache_def sharedEventsCache_def january_def
          Map_new_def eventsFromCache_def iso_values a b)
qed

text \<open>
  Claim C8, amended. For every event list whose elements have pairwise distinct id
  strings, every coverage range, filter key and cache state, absorbing the list twice in
  succession leaves the cache that absorbing it once leaves, and so every query returns
  the same events after the second absorb as after the first.
\<close>

theorem absorb_idempotent:
  assumes "distinct (map idKey L)"
  shows "cacheAfterStore L cs ce k (cacheAfterStore L cs ce k c) = cacheAfterStore L cs ce k c \<and>
         eventsFromCache parse rangeStart rangeEnd key
           (cacheAfterStore L cs ce k (cacheAfterStore L cs ce k c)) =
         eventsFromCache parse rangeStart rangeEnd key (cacheAfterStore L cs ce k c)"
proof -
  have "cacheAfterStore L cs ce k (cacheAfterStore L cs ce k c) = cacheAfterStore L cs ce k c"
  proof (cases "storeEventsToCache L cs ce k c")
    case None
    then show ?thesis by (simp add: cacheAfterStore_def)
  next
    case (Some c1)
    with store_idem_Some [OF assms Some] show ?thesis by (simp add: cacheAfterStore_def)
  qed
  then show ?thesis by simp
qed

theorem absorb_idempotent_witness:
  "distinct (map idKey [appointment, cleaning]) \<and>
   cacheAfterStore [appointment, cleaning] (fst january) (snd january) ''3,7|1|''
     (cacheAfterStore [appointment, cleaning] (fst january) (snd january) ''3,7|1|''
        sharedEventsCache) =
   cacheAfterStore [appointment, cleaning] (fst january) (snd january) ''3,7|1|''
     sharedEventsCache \<and>
   eventsFromCache isoParse (isoParse ''2024-01-10T08:00'') (isoParse ''2024-01-11T00:00'')
     ''3,7|1|''
     (cacheAfterStore [appointment, cleaning] (fst january) (snd january) ''3,7|1|''
        (cacheAfterStore [appointment, cleaning] (fst january) (snd january) ''3,7|1|''
           sharedEventsCache)) =
   eventsFromCache isoParse (isoParse ''2024-01-10T08:00'') (isoParse ''2024-01-11T00:00'')
     ''3,7|1|''
     (cacheAfterStore [appointment, cleaning] (fst january) (snd january) ''3,7|1|''
        sharedEventsCache)"
proof -
  have d: "distinct (map idKey [appointment, cleaning])" by simp
  from absorb_idempotent [OF d] d show ?thesis by blast
qed

subsection \<open>Insertion\<close>

lemma push_neq: "push ev c \<noteq> c"
proof
  assume "push ev c = c"
  then have "cache_events (push ev c) = cache_events c" by simp
  then show False by (simp add: push_def)
qed

lemma some_id_False:
  "some_id es i = Some False \<longleftrightarrow> (\<forall>e \<in> set es. idKey e \<noteq> None \<and> idKey e \<noteq> Some i)"
  by (induction es) (auto split: option.splits)

lemma getprop_truthy: "getprop ev n = Some v \<Longrightarrow> v \<noteq> JUndefined \<Longrightarrow> truthy ev"
  by (cases ev) auto

text \<open>
  Claim C10, as stated, has the duplicate guard apply to every event with a non-null id.
  The guard is \<^verbatim>\<open>if (id)\<close> on the string of the id, which is false for the empty string:
  an event whose id is \<^verbatim>\<open>""\<close> is appended although the cache holds an event with the
  same id string.
\<close>

theorem addEventToCache_blank_id_counterexample:
  "getprop blank_id_event ''id'' = Some (JStr '''') \<and>
   idKey blank_id_event = Some (jsString (JStr '''')) \<and>
   cache_events (addEventToCache blank_id_event
     \<lparr>cache_key = None, cache_start = None, cache_end = None, cache_events = [blank_id_event]\<rparr>)
     = [blank_id_event, blank_id_event]"
  by (simp add: addEventToCache_def blank_id_event_def push_def idKey_def)

text \<open>
  Claim C10, amended. An event whose id is \<^verbatim>\<open>null\<close> or \<^verbatim>\<open>undefined\<close>, or whose id prints
  as the empty string, is appended unconditionally. For an event with a non-null id that
  prints as a non-empty string, \<^verbatim>\<open>addEventToCache\<close> leaves the cache unchanged exactly
  when some cached element's id prints as the same string or some cached element is
  \<^verbatim>\<open>null\<close> or \<^verbatim>\<open>undefined\<close> (the scan then throws and the handler drops the insert);
  otherwise it appends the event.
\<close>

theorem addEventToCache_guard:
  "(getprop ev ''id'' = Some JUndefined \<or> getprop ev ''id'' = Some JNull \<longrightarrow>
      addEventToCache ev c = push ev c) \<and>
   (getprop ev ''id'' = Some v \<and> v \<noteq> JUndefined \<and> v \<noteq> JNull \<and> jsString v = [] \<longrightarrow>
      addEventToCache ev c = push ev c) \<and>
   (getprop ev ''id'' = Some v \<and> v \<noteq> JUndefined \<and> v \<noteq> JNull \<and> jsString v \<noteq> [] \<longrightarrow>
      (addEventToCache ev c = c \<longleftrightarrow>
         (\<exists>e \<in> set (cache_events c). idKey e = Some (jsString v) \<or> idKey e = None)) \<and>
      (addEventToCache ev c \<noteq> c \<longrightarrow> addEventToCache ev c = push ev c))"
proof (intro conjI impI)
  assume "getprop ev ''id'' = Some JUndefined \<or> getprop ev ''id'' = Some JNull"
  then show "addEventToCache ev c = push ev c"
    by (auto simp: addEventToCache_def)
next
  assume "getprop ev ''id'' = Some v \<and> v \<noteq> JUndefined \<and> v \<noteq> JNull \<and> jsString v = []"
  then show "addEventToCache ev c = push ev c"
    by (auto simp: addEventToCache_def)
next
  assume a: "getprop ev ''id'' = Some v \<and> v \<noteq> JUndefined \<and> v \<noteq> JNull \<and> jsString v \<noteq> []"
  then have t: "truthy ev" using getprop_truthy by blast
  have eq: "addEventToCache ev c =
      (case some_id (cache_events c) (jsString v) of
         None \<Rightarrow> c | Some exists \<Rightarrow> if exists then c else push ev c)"
    using a t by (simp add: addEventToCache_def)
  show "addEventToCache ev c = c \<longleftrightarrow>
         (\<exists>e \<in> set (cache_events c). idKey e = Some (jsString v) \<or> idKey e = None)"
  proof (cases "some_id (cache_events c) (jsString v) = Some False")
    case True
    then show ?thesis using eq some_id_False [of "cache_events c" "jsString v"] push_neq [of ev c]
      by auto
  next
    case False
    then have "addEventToCache ev c = c" using eq by (auto split: option.splits)
    then show ?thesis using False some_id_False [of "cache_events c" "jsString v"] by auto
  qed
  show "addEventToCache ev c \<noteq> c \<Longrightarrow> addEventToCache ev c = push ev c"
    using eq by (auto split: option.splits if_splits)
qed

theorem addEventToCache_guard_witness:
  "addEventToCache draft january_cache = push draft january_cache \<and>
   addEventToCache blank_id_event january_cache = push blank_id_event january_cache \<and>
   addEventToCache appointment january_cache = january_cache \<and>
   addEventToCache cleaning january_cache = push cleaning january_cache"
proof -
  have 1: "getprop draft ''id'' = Some JUndefined" by (simp add: draft_def)
  have 2: "getprop blank_id_event ''id'' = Some (JStr '''') \<and> JStr '''' \<noteq> JUndefined \<and>
           JStr '''' \<noteq> JNull \<and> jsString (JStr '''') = []"
    by (simp add: blank_id_event_def)
  have 3: "getprop appointment ''id'' = Some (JNum (Fin 1)) \<and> JNum (Fin 1) \<noteq> JUndefined \<and>
           JNum (Fin 1) \<noteq> JNull \<and> jsString (JNum (Fin 1)) \<noteq> []"
    by (simp add: appointment_def)
  have 4: "getprop cleaning ''id'' = Some (JNum (Fin 2)) \<and> JNum (Fin 2) \<noteq> JUndefined \<and>
           JNum (Fin 2) \<noteq> JNull \<and> jsString (JNum (Fin 2)) \<noteq> []"
    by (simp add: cleaning_def)
  have 5: "\<exists>e \<in> set (cache_events january_cache).
             idKey e = Some (jsString (JNum (Fin 1))) \<or> idKey e = None"
    by (simp add: january_cache_def)
  have 6: "\<not> (\<exists>e \<in> set (cache_events january_cache).
             idKey e = Some (jsString (JNum (Fin 2))) \<or> idKey e = None)"
    by (simp add: january_cache_def)
  from addEventToCache_guard [of draft january_cache] 1
       addEventToCache_guard [of blank_id_event january_cache "JStr ''''"] 2
       addEventToCache_guard [of appointment january_cache "JNum (Fin 1)"] 3 5
       addEventToCache_guard [of cleaning january_cache "JNum (Fin 2)"] 4 6
  show ?thesis by blast
qed

subsection \<open>The default duration\<close>

lemma digit_char_cases:
  "d < 10 \<Longrightarrow> d = 0 \<or> d = 1 \<or> d = 2 \<or> d = 3 \<or> d = 4 \<or> d = 5 \<or> d = 6 \<or> d = 7 \<or> d = 8 \<or> d = (9::nat)"
  by arith

lemma of_char_digit: "d < 10 \<Longrightarrow> (of_char (digit_char d) :: nat) = 48 + d"
  using digit_char_cases [of d] by (auto simp: digit_char_def)

lemma dec_all_digits: "c \<in> set (dec n) \<Longrightarrow> is_digit c"
proof (induction n rule: dec.induct)
  case (1 n)
  show ?case
  proof (cases "n < 10")
    case True
    with "1.prems" have "c = digit_char n" by (simp add: dec.simps [of n])
    with True show ?thesis by (simp add: is_digit_def of_char_digit)
  next
    case False
    with "1.prems" have "c \<in> set (dec (n div 10)) \<or> c = digit_char (n mod 10)"
      by (auto simp: dec.simps [of n])
    with "1.IH" False show ?thesis by (auto simp: is_digit_def of_char_digit)
  qed
qed

lemma dec_nonempty: "dec n \<noteq> []"
  by (simp add: dec.simps [of n])

lemma digits_nat_snoc:
  "digits_nat acc (xs @ [c]) = 10 * digits_nat acc xs + (of_char c - 48)"
  by (induction xs arbitrary: acc) auto

lemma digits_nat_dec: "digits_nat 0 (dec n) = n"
proof (induction n rule: dec.induct)
  case (1 n)
  show ?case
  proof (cases "n < 10")
    case True
    then show ?thesis by (simp add: dec.simps [of n] of_char_digit)
  next
    case False
    with "1.IH" show ?thesis
      by (simp add: dec.simps [of n] digits_nat_snoc of_char_digit)
  qed
qed

lemma dec_length: "n < 10 ^ k \<Longrightarrow> 0 < k \<Longrightarrow> length (dec n) \<le> k"
proof (induction n arbitrary: k rule: dec.induct)
  case (1 n)
  show ?case
  proof (cases "n < 10")
    case True
    with "1.prems" show ?thesis by (simp add: dec.simps [of n])
  next
    case False
    with "1.prems" obtain j where k: "k = Suc j" by (cases k) auto
    have "0 < j" using False "1.prems" k by (cases j) auto
    moreover have "n div 10 < 10 ^ j" using "1.prems" k by (simp add: less_mult_imp_div_less)
    ultimately have "length (dec (n div 10)) \<le> j" using "1.IH" [OF False] by simp
    with False k show ?thesis by (simp add: dec.simps [of n])
  qed
qed

lemma parseInt_dec: "parseInt (dec n) = Fin (int n)"
proof -
  have all: "\<forall>c \<in> set (dec n). is_digit c" using dec_all_digits by blast
  obtain c cs where d: "dec n = c # cs" using dec_nonempty [of n] by (cases "dec n") auto
  have c: "is_digit c" using all d by simp
  then have "\<not> is_space c" "c \<noteq> CHR ''-''" "c \<noteq> CHR ''+''"
    by (auto simp: is_digit_def is_space_def)
  moreover have "takeWhile is_digit (dec n) = dec n" using all by (simp add: takeWhile_eq_all_conv)
  ultimately show ?thesis using d digits_nat_dec [of n]
    by (simp add: parseInt_def Let_def)
qed

lemma int_to_string_dec: "0 \<le> i \<Longrightarrow> i < 10 ^ 21 \<Longrightarrow> int_to_string i = dec (nat i)"
proof -
  assume a: "0 \<le> i" "i < 10 ^ 21"
  then have "nat i < 10 ^ 21" by (simp add: nat_less_iff)
  then have "length (dec (nat i)) \<le> 21" by (rule dec_length) simp
  with a show ?thesis by (simp add: int_to_string_def Let_def)
qed

lemma parseInt_int_to_string:
  "0 \<le> i \<Longrightarrow> i < 10 ^ 21 \<Longrightarrow> parseInt (int_to_string i) = Fin i"
  by (simp add: int_to_string_dec parseInt_dec)

lemma int_to_string_nonempty: "0 \<le> i \<Longrightarrow> i < 10 ^ 21 \<Longrightarrow> int_to_string i \<noteq> []"
  by (simp add: int_to_string_dec dec_nonempty)

lemma get_after_set:
  assumes "\<not> blocked st" and "0 < v" and "v < 10 ^ 21"
  shows "getDefaultEventDurationMin
           (st\<lparr>items := (items st)(DEFAULT_DURATION_KEY \<mapsto> int_to_string v)\<rparr>)
         = (if v = 15 then Fin 60 else Fin v)"
  using assms
  by (simp add: getDefaultEventDurationMin_def getItem_def Let_def
        parseInt_int_to_string int_to_string_nonempty)

lemma sixty_string: "int_to_string 60 = ''60''"
  by (simp add: int_to_string_def dec.simps digit_char_def)

lemma sixty: "parseInt ''60'' = Fin 60"
proof -
  have "dec 60 = ''60''" by (simp add: dec.simps digit_char_def)
  with parseInt_dec [of 60] show ?thesis by simp
qed

lemma dec_1e21:
  "dec 1000000000000000000000 = ''1000000000000000000000''"
  by (simp add: dec.simps digit_char_def)

lemma string_1e21: "int_to_string 1000000000000000000000 = ''1e+21''"
proof -
  have d21: "dec 21 = ''21''" by (simp add: dec.simps digit_char_def)
  have len: "length ''1000000000000000000000'' - 1 = 21" by simp
  have zeros: "strip_zeros (tl ''1000000000000000000000'') = []"
    by (simp add: strip_zeros_def)
  have "exp_notation ''1000000000000000000000'' = ''1e+21''"
    unfolding exp_notation_def Let_def len zeros using d21 by simp
  then show ?thesis by (simp add: int_to_string_def dec_1e21)
qed

text \<open>
  Claim C9, as stated, has every finite positive number other than 15 read back as it
  was set. The setter stores \<^verbatim>\<open>String(mins)\<close> and the getter reads it with
  \<^verbatim>\<open>parseInt\<close>, which stops at the first character that is not a digit: \<open>10\<^sup>2\<^sup>1\<close> is
  stored as \<^verbatim>\<open>1e+21\<close> and read back as 1.
\<close>

theorem duration_large_counterexample:
  "getDefaultEventDurationMin
     (setDefaultEventDurationMin (Fin 1000000000000000000000) empty_storage) = Fin 1"
proof -
  have "parseInt ''1e+21'' = Fin 1"
    by (simp add: parseInt_def is_space_def is_digit_def)
  then show ?thesis
    by (simp add: setDefaultEventDurationMin_def setItem_def empty_storage_def string_1e21
          getDefaultEventDurationMin_def getItem_def DEFAULT_DURATION_KEY_def)
qed

text \<open>
  Claim C9, amended. With working storage, after the default duration is set to \<open>m\<close> the
  value read back is \<open>m\<close> when \<open>m\<close> is a positive integer below \<open>10\<^sup>2\<^sup>1\<close> other than 15
  (and what is stored is the decimal numeral of \<open>m\<close>, for \<open>m\<close> below \<open>2\<^sup>5\<^sup>3\<close>); when \<open>m\<close>
  is \<open>NaN\<close>, infinite, zero, negative or exactly 15, what is stored is \<^verbatim>\<open>"60"\<close> and the
  value read back is 60; reading with no stored value yields 60.
\<close>

theorem duration_roundtrip:
  "(\<not> blocked st \<and> 0 < i \<and> i < 10 ^ 21 \<and> i \<noteq> 15 \<longrightarrow>
      getDefaultEventDurationMin (setDefaultEventDurationMin (Fin i) st) = Fin i \<and>
      (i < 2 ^ 53 \<longrightarrow>
         items (setDefaultEventDurationMin (Fin i) st) DEFAULT_DURATION_KEY = Some (dec (nat i)))) \<and>
   (\<not> blocked st \<and>
    (m = NaN \<or> m = PosInfinity \<or> m = NegInfinity \<or> (\<exists>j. m = Fin j \<and> (j \<le> 0 \<or> j = 15))) \<longrightarrow>
      getDefaultEventDurationMin (setDefaultEventDurationMin m st) = Fin 60 \<and>
      items (setDefaultEventDurationMin m st) DEFAULT_DURATION_KEY = Some ''60'') \<and>
   (items st DEFAULT_DURATION_KEY = None \<longrightarrow> getDefaultEventDurationMin st = Fin 60)"
proof (intro conjI impI)
  assume a: "\<not> blocked st \<and> 0 < i \<and> i < 10 ^ 21 \<and> i \<noteq> 15"
  then have "setDefaultEventDurationMin (Fin i) st =
      st\<lparr>items := (items st)(DEFAULT_DURATION_KEY \<mapsto> int_to_string i)\<rparr>"
    by (simp add: setDefaultEventDurationMin_def setItem_def)
  with a get_after_set [of st i]
  show "getDefaultEventDurationMin (setDefaultEventDurationMin (Fin i) st) = Fin i" by simp
next
  assume a: "\<not> blocked st \<and> 0 < i \<and> i < 10 ^ 21 \<and> i \<noteq> 15" and "i < 2 ^ 53"
  then have "setDefaultEventDurationMin (Fin i) st =
      st\<lparr>items := (items st)(DEFAULT_DURATION_KEY \<mapsto> int_to_string i)\<rparr>"
    by (simp add: setDefaultEventDurationMin_def setItem_def)
  moreover have "int_to_string i = dec (nat i)" using a by (simp add: int_to_string_dec)
  ultimately
  show "items (setDefaultEventDurationMin (Fin i) st) DEFAULT_DURATION_KEY = Some (dec (nat i))"
    by simp
next
  assume a: "\<not> blocked st \<and>
    (m = NaN \<or> m = PosInfinity \<or> m = NegInfinity \<or> (\<exists>j. m = Fin j \<and> (j \<le> 0 \<or> j = 15)))"
  then have "setDefaultEventDurationMin m st =
      st\<lparr>items := (items st)(DEFAULT_DURATION_KEY \<mapsto> int_to_string 60)\<rparr>"
    by (auto simp: setDefaultEventDurationMin_def setItem_def)
  with a get_after_set [of st 60]
  show "getDefaultEventDurationMin (setDefaultEventDurationMin m st) = Fin 60" by simp
next
  assume a: "\<not> blocked st \<and>
    (m = NaN \<or> m = PosInfinity \<or> m = NegInfinity \<or> (\<exists>j. m = Fin j \<and> (j \<le> 0 \<or> j = 15)))"
  then have "setDefaultEventDurationMin m st =
      st\<lparr>items := (items st)(DEFAULT_DURATION_KEY \<mapsto> int_to_string 60)\<rparr>"
    by (auto simp: setDefaultEventDurationMin_def setItem_def)
  then show "items (setDefaultEventDurationMin m st) DEFAULT_DURATION_KEY = Some ''60''"
    by (simp add: sixty_string)
next
  assume "items st DEFAULT_DURATION_KEY = None"
  then show "getDefaultEventDurationMin st = Fin 60"
    by (simp add: getDefaultEventDurationMin_def getItem_def sixty)
qed

theorem duration_roundtrip_witness:
  "getDefaultEventDurationMin (setDefaultEventDurationMin (Fin 30) empty_storage) = Fin 30 \<and>
   items (setDefaultEventDurationMin (Fin 30) empty_storage) DEFAULT_DURATION_KEY = Some ''30'' \<and>
   getDefaultEventDurationMin (setDefaultEventDurationMin (Fin 15) empty_storage) = Fin 60 \<and>
   items (setDefaultEventDurationMin (Fin 15) empty_storage) DEFAULT_DURATION_KEY = Some ''60'' \<and>
   getDefaultEventDurationMin (setDefaultEventDurationMin NaN empty_storage) = Fin 60 \<and>
   items (setDefaultEventDurationMin (Fin 0) empty_storage) DEFAULT_DURATION_KEY = Some ''60'' \<and>
   getDefaultEventDurationMin empty_storage = Fin 60"
proof -
  have nb: "\<not> blocked empty_storage" by (simp add: empty_storage_def)
  have none: "items empty_storage DEFAULT_DURATION_KEY = None" by (simp add: empty_storage_def)
  have thirty: "(0::int) < 30 \<and> (30::int) < 10 ^ 21 \<and> (30::int) \<noteq> 15" "(30::int) < 2 ^ 53"
    by simp_all
  have d30: "dec (nat 30) = ''30''" by (simp add: dec.simps digit_char_def)
  have g15: "\<exists>j. Fin 15 = Fin j \<and> (j \<le> 0 \<or> j = 15)" and g0: "\<exists>j. Fin 0 = Fin j \<and> (j \<le> 0 \<or> j = 15)"
    by simp_all
  from duration_roundtrip [of empty_storage 30 "Fin 15"]
       duration_roundtrip [of empty_storage 30 NaN]
       duration_roundtrip [of empty_storage 30 "Fin 0"] nb none thirty g15 g0 d30
  show ?thesis by metis
qed

subsection \<open>The fetch coordinator\<close>

lemma success_fields [simp]:
  "sharedCache (success cl result s) = sharedCache s"
  "pendingEventsFetches (success cl result s) = pendingEventsFetches s"
  "inflight (success cl result s) = inflight s"
  "waiting (success cl result s) = waiting s"
  "fetches (success cl result s) = fetches s"
  "answered (success cl result s) = answered s @ [(call_who cl, Success result)]"
  by (simp_all add: success_def)

lemma fail_fields [simp]:
  "sharedCache (fail cl s) = sharedCache s"
  "pendingEventsFetches (fail cl s) = pendingEventsFetches s"
  "inflight (fail cl s) = inflight s"
  "waiting (fail cl s) = waiting s"
  "fetches (fail cl s) = fetches s"
  "answered (fail cl s) =
     answered s @ [(call_who cl, if call_has_failure cl then Failure else Success [])]"
  by (simp_all add: fail_def)

lemma consistent_cong:
  "consistent toISO s \<Longrightarrow> pendingEventsFetches s' = pendingEventsFetches s \<Longrightarrow>
   inflight s' = inflight s \<Longrightarrow> fetches s' = fetches s \<Longrightarrow> consistent toISO s'"
  by (simp add: consistent_def)

lemma consistent_page_load: "consistent toISO page_load"
  by (simp add: consistent_def page_load_def)

lemma consistentD1:
  "consistent toISO s \<Longrightarrow> pendingEventsFetches s dk = Some p \<Longrightarrow>
   \<exists>cl b. inflight s p = Some (cl, b) \<and> dedupKey toISO cl = Some dk"
  unfolding consistent_def by blast

lemma consistentD2:
  "consistent toISO s \<Longrightarrow> inflight s p = Some (cl, b) \<Longrightarrow>
   \<exists>dk. dedupKey toISO cl = Some dk \<and> pendingEventsFetches s dk = Some p"
  unfolding consistent_def by blast

lemma consistentD3: "consistent toISO s \<Longrightarrow> inflight s p = Some x \<Longrightarrow> p < fetches s"
  unfolding consistent_def by blast

lemma consistentI:
  assumes "\<And>dk p. pendingEventsFetches s dk = Some p \<Longrightarrow>
             \<exists>cl b. inflight s p = Some (cl, b) \<and> dedupKey toISO cl = Some dk"
    and "\<And>p cl b. inflight s p = Some (cl, b) \<Longrightarrow>
             \<exists>dk. dedupKey toISO cl = Some dk \<and> pendingEventsFetches s dk = Some p"
    and "\<And>p x. inflight s p = Some x \<Longrightarrow> p < fetches s"
  shows "consistent toISO s"
  unfolding consistent_def using assms by blast

lemma consistent_events:
  assumes "consistent toISO s"
  shows "consistent toISO (events toISO parse cl s)"
proof (cases "dedupKey toISO cl")
  case None
  then show ?thesis by (intro consistent_cong [OF assms]) (simp_all add: events_def)
next
  case (Some dk)
  show ?thesis
  proof (cases "cacheCoversRange (call_covStart cl) (call_covEnd cl) (call_key cl) (sharedCache s)")
    case True
    with Some show ?thesis by (intro consistent_cong [OF assms]) (simp_all add: events_def)
  next
    case False
    show ?thesis
    proof (cases "pendingEventsFetches s dk")
      case (Some p)
      with \<open>dedupKey toISO cl = Some dk\<close> False show ?thesis
        by (intro consistent_cong [OF assms]) (simp_all add: events_def)
    next
      case None
      let ?s' = "s\<lparr>inflight := (inflight s)(fetches s \<mapsto> (cl, False)),
                   pendingEventsFetches := (pendingEventsFetches s)(dk \<mapsto> fetches s),
                   fetches := Suc (fetches s)\<rparr>"
      have eq: "events toISO parse cl s = ?s'"
        using \<open>dedupKey toISO cl = Some dk\<close> False None by (simp add: events_def)
      have fresh: "inflight s (fetches s) = None"
      proof (cases "inflight s (fetches s)")
        case (Some x)
        from consistentD3 [OF assms this] show ?thesis by simp
      qed simp
      have "consistent toISO ?s'"
      proof (rule consistentI)
        fix k p assume kp: "pendingEventsFetches ?s' k = Some p"
        show "\<exists>c b. inflight ?s' p = Some (c, b) \<and> dedupKey toISO c = Some k"
        proof (cases "k = dk")
          case True
          with kp \<open>dedupKey toISO cl = Some dk\<close> show ?thesis by auto
        next
          case False
          with kp have old: "pendingEventsFetches s k = Some p" by simp
          from consistentD1 [OF assms old]
          obtain c b where c: "inflight s p = Some (c, b)" "dedupKey toISO c = Some k" by blast
          with fresh have "p \<noteq> fetches s" by auto
          with c show ?thesis by simp
        qed
      next
        fix p c b assume pc: "inflight ?s' p = Some (c, b)"
        show "\<exists>k. dedupKey toISO c = Some k \<and> pendingEventsFetches ?s' k = Some p"
        proof (cases "p = fetches s")
          case True
          with pc \<open>dedupKey toISO cl = Some dk\<close> show ?thesis by simp
        next
          case False
          with pc have "inflight s p = Some (c, b)" by simp
          from consistentD2 [OF assms this]
          obtain k where k: "dedupKey toISO c = Some k" "pendingEventsFetches s k = Some p"
            by blast
          with None have "k \<noteq> dk" by auto
          with k show ?thesis by simp
        qed
      next
        fix p x assume "inflight ?s' p = Some x"
        then have "p = fetches s \<or> inflight s p = Some x" by (simp split: if_splits)
        then show "p < fetches ?s'"
        proof
          assume "p = fetches s"
          then show ?thesis by simp
        next
          assume "inflight s p = Some x"
          from consistentD3 [OF assms this] show ?thesis by simp
        qed
      qed
      with eq show ?thesis by simp
    qed
  qed
qed

lemma consistent_respond:
  assumes "consistent toISO s"
  shows "consistent toISO (respond parse p r s)"
proof (cases "inflight s p")
  case None
  then show ?thesis using assms by (simp add: respond_def)
next
  case (Some x)
  obtain cl b where x: "x = (cl, b)" by (cases x)
  show ?thesis
  proof (cases b)
    case True
    with Some x assms show ?thesis by (simp add: respond_def)
  next
    case False
    let ?s' = "s\<lparr>inflight := (inflight s)(p \<mapsto> (cl, True))\<rparr>"
    have base: "consistent toISO ?s'"
    proof (rule consistentI)
      fix k q assume "pendingEventsFetches ?s' k = Some q"
      then have "pendingEventsFetches s k = Some q" by simp
      from consistentD1 [OF assms this]
      obtain c b' where c: "inflight s q = Some (c, b')" "dedupKey toISO c = Some k" by blast
      show "\<exists>c b. inflight ?s' q = Some (c, b) \<and> dedupKey toISO c = Some k"
      proof (cases "q = p")
        case True
        with c Some x show ?thesis by auto
      next
        case False
        with c show ?thesis by auto
      qed
    next
      fix q c b' assume qc: "inflight ?s' q = Some (c, b')"
      have "\<exists>b''. inflight s q = Some (c, b'')"
        using qc Some x by (cases "q = p") auto
      then obtain b'' where "inflight s q = Some (c, b'')" by blast
      from consistentD2 [OF assms this]
      show "\<exists>k. dedupKey toISO c = Some k \<and> pendingEventsFetches ?s' k = Some q" by simp
    next
      fix q y assume "inflight ?s' q = Some y"
      then have "\<exists>z. inflight s q = Some z" using Some by (cases "q = p") auto
      then obtain z where "inflight s q = Some z" by blast
      from consistentD3 [OF assms this] show "q < fetches ?s'" by simp
    qed
    have "pendingEventsFetches (respond parse p r s) = pendingEventsFetches ?s'
          \<and> inflight (respond parse p r s) = inflight ?s'
          \<and> fetches (respond parse p r s) = fetches ?s'"
      using Some x False
      by (cases r) (auto simp: respond_def Let_def split: option.splits)
    with base show ?thesis by (intro consistent_cong [OF base]) simp_all
  qed
qed

lemma consistent_finalize:
  assumes "consistent toISO s"
  shows "consistent toISO (finalize toISO p s)"
proof (cases "inflight s p")
  case None
  then show ?thesis using assms by (simp add: finalize_def)
next
  case (Some x)
  obtain cl b where x: "x = (cl, b)" by (cases x)
  show ?thesis
  proof (cases b)
    case False
    with Some x assms show ?thesis by (simp add: finalize_def)
  next
    case True
    from consistentD2 [OF assms] Some x obtain dk where
      dk: "dedupKey toISO cl = Some dk" "pendingEventsFetches s dk = Some p" by blast
    let ?s' = "s\<lparr>pendingEventsFetches := (pendingEventsFetches s)(dk := None),
                 inflight := (inflight s)(p := None)\<rparr>"
    have eq: "finalize toISO p s = ?s'"
      using Some x True dk by (simp add: finalize_def)
    have "consistent toISO ?s'"
    proof (rule consistentI)
      fix k q assume "pendingEventsFetches ?s' k = Some q"
      then have k: "k \<noteq> dk" "pendingEventsFetches s k = Some q" by (auto split: if_splits)
      from consistentD1 [OF assms k(2)]
      obtain c b' where c: "inflight s q = Some (c, b')" "dedupKey toISO c = Some k" by blast
      have "q \<noteq> p"
      proof
        assume "q = p"
        with c Some x have "c = cl" by simp
        with c(2) dk(1) k(1) show False by simp
      qed
      with c show "\<exists>c b. inflight ?s' q = Some (c, b) \<and> dedupKey toISO c = Some k" by auto
    next
      fix q c b' assume "inflight ?s' q = Some (c, b')"
      then have q: "q \<noteq> p" "inflight s q = Some (c, b')" by (auto split: if_splits)
      from consistentD2 [OF assms q(2)]
      obtain k where k: "dedupKey toISO c = Some k" "pendingEventsFetches s k = Some q" by blast
      have "k \<noteq> dk" using k(2) dk(2) q(1) by auto
      with k show "\<exists>k. dedupKey toISO c = Some k \<and> pendingEventsFetches ?s' k = Some q" by simp
    next
      fix q y assume "inflight ?s' q = Some y"
      then have "inflight s q = Some y" by (auto split: if_splits)
      from consistentD3 [OF assms this] show "q < fetches ?s'" by simp
    qed
    with eq show ?thesis by simp
  qed
qed

lemma consistent_wake:
  assumes "consistent toISO s"
  shows "consistent toISO (wake parse i s)"
  by (rule consistent_cong [OF assms]) (simp_all add: wake_def)

lemma consistent_act:
  assumes "consistent toISO s"
  shows "consistent toISO (act toISO parse a s)"
proof (cases a)
  case (Invoke cl)
  with assms show ?thesis by (simp add: consistent_events)
next
  case (Arrive p r)
  with assms show ?thesis by (simp add: consistent_respond)
next
  case (Finish p)
  with assms show ?thesis by (simp add: consistent_finalize)
next
  case (Resume i)
  with assms show ?thesis by (simp add: consistent_wake)
next
  case (Edit c)
  have "consistent toISO (s\<lparr>sharedCache := c\<rparr>)"
    by (intro consistent_cong [OF assms]) simp_all
  with Edit show ?thesis by simp
qed

lemma consistent_run:
  "consistent toISO s \<Longrightarrow> consistent toISO (run toISO parse acts s)"
  by (induction acts arbitrary: s) (simp_all add: consistent_act)

lemma one_request_per_key:
  assumes "s = run toISO parse acts page_load"
    and "inflight s p = Some (cl, b)" and "inflight s q = Some (cl', b')"
    and "dedupKey toISO cl = dedupKey toISO cl'"
  shows "p = q"
proof -
  have c: "consistent toISO s"
    unfolding assms(1) using consistent_page_load by (rule consistent_run)
  from consistentD2 [OF c assms(2)] obtain dk where
    1: "dedupKey toISO cl = Some dk" "pendingEventsFetches s dk = Some p" by blast
  from consistentD2 [OF c assms(3)] obtain dk' where
    2: "dedupKey toISO cl' = Some dk'" "pendingEventsFetches s dk' = Some q" by blast
  from 1 2 assms(4) show ?thesis by simp
qed

lemma civil_january:
  "civil_from_days 19723 = (2024, 1, 1)" "civil_from_days 19754 = (2024, 2, 1)"
  by code_simp+

lemma replicate_small: "replicate 2 c = [c, c]" "replicate 3 c = [c, c, c]"
  by (simp_all add: numeral_2_eq_2 numeral_3_eq_3)

lemma dec_small:
  "dec (Suc 0) = ''1''" "dec 0 = ''0''" "dec 2 = ''2''" "dec 2024 = ''2024''"
  by (simp_all add: dec.simps digit_char_def)

lemma pad_small:
  "pad 4 2024 = ''2024''" "pad 2 (Suc 0) = ''01''" "pad 2 2 = ''02''" "pad 2 0 = ''00''"
  "pad 3 0 = ''000''"
  by (simp_all add: pad_def dec_small replicate_small)

lemma iso_january:
  "toISOString 1704067200000 = ''2024-01-01T00:00:00.000Z''"
  "toISOString 1706745600000 = ''2024-02-01T00:00:00.000Z''"
  by (simp_all add: toISOString_def civil_january pad_small)

lemma dedup_days:
  "dedupKey toISOString day_10 = Some january_key"
  "dedupKey toISOString day_12 = Some january_key"
  by (simp_all add: dedupKey_def day_10_def day_12_def iso_january january_key_def)

lemma respond_Ok:
  assumes "inflight s p = Some (cl, False)"
    and "storeEventsToCache (case body of JArr list \<Rightarrow> list | _ \<Rightarrow> [])
           (Some (call_covStart cl)) (Some (call_covEnd cl)) (call_key cl) (sharedCache s) = Some c"
  shows "respond parse p (Ok body) s =
           success cl (fromCache parse cl c)
             (s\<lparr>inflight := (inflight s)(p \<mapsto> (cl, True)), sharedCache := c\<rparr>)"
  using assms by (simp add: respond_def)

lemma respond_failed:
  assumes "inflight s p = Some (cl, False)"
    and "r = NetworkError \<or> r = HttpError \<or> r = BadJson"
  shows "respond parse p r s = fail cl (s\<lparr>inflight := (inflight s)(p \<mapsto> (cl, True))\<rparr>)"
  using assms by (auto simp: respond_def)

lemma finalize_responded:
  assumes "inflight s p = Some (cl, True)" and "dedupKey toISO cl = Some dk"
  shows "finalize toISO p s =
           s\<lparr>pendingEventsFetches := (pendingEventsFetches s)(dk := None),
             inflight := (inflight s)(p := None)\<rparr>"
  using assms by (simp add: finalize_def)

lemma events_issue:
  assumes "dedupKey toISO cl = Some dk"
    and "\<not> cacheCoversRange (call_covStart cl) (call_covEnd cl) (call_key cl) (sharedCache s)"
    and "pendingEventsFetches s dk = None"
  shows "events toISO parse cl s =
           s\<lparr>inflight := (inflight s)(fetches s \<mapsto> (cl, False)),
             pendingEventsFetches := (pendingEventsFetches s)(dk \<mapsto> fetches s),
             fetches := Suc (fetches s)\<rparr>"
  using assms by (simp add: events_def)

lemma respond_marks:
  assumes "inflight s p = Some (cl, False)"
  shows "inflight (respond parse p r s) = (inflight s)(p \<mapsto> (cl, True))"
    and "pendingEventsFetches (respond parse p r s) = pendingEventsFetches s"
    and "waiting (respond parse p r s) = waiting s"
  using assms by (cases r; auto simp: respond_def Let_def split: option.splits)+

lemma finalize_clears:
  assumes "inflight s p = Some (cl, True)"
  shows "inflight (finalize toISO p s) = (inflight s)(p := None)"
    and "waiting (finalize toISO p s) = waiting s"
    and "sharedCache (finalize toISO p s) = sharedCache s"
    and "answered (finalize toISO p s) = answered s"
    and "dedupKey toISO cl = Some dk \<Longrightarrow> pendingEventsFetches (finalize toISO p s) dk = None"
  using assms by (auto simp: finalize_def split: option.splits)

lemma day_fields:
  "call_covStart day_10 = Some 1704067200000" "call_covEnd day_10 = Some 1706745600000"
  "call_covStart day_12 = Some 1704067200000" "call_covEnd day_12 = Some 1706745600000"
  "call_covStart day_10_again = Some 1704067200000"
  "call_covEnd day_10_again = Some 1706745600000"
  "call_who day_10 = 1" "call_who day_12 = 2" "call_who day_10_again = 3"
  "call_has_failure day_10" "call_has_failure day_12" "call_has_failure day_10_again"
  by (simp_all add: day_10_def day_12_def day_10_again_def)

lemma not_covered: "\<not> cacheCoversRange (Some a) (Some b) k sharedEventsCache"
  by (simp add: cacheCoversRange_def sharedEventsCache_def)

lemma first_call: "events toISOString isoParse day_10 page_load = fetching"
proof -
  have "pendingEventsFetches page_load january_key = None" by (simp add: page_load_def)
  moreover have "\<not> cacheCoversRange (call_covStart day_10) (call_covEnd day_10) (call_key day_10)
      (sharedCache page_load)"
    by (simp add: page_load_def day_fields not_covered)
  ultimately show ?thesis
    using events_issue [OF dedup_days(1), of page_load isoParse]
    by (simp add: page_load_def fetching_def)
qed

lemma second_call:
  "events toISOString isoParse day_12 fetching = fetching\<lparr>waiting := [(0, day_12)]\<rparr>"
  by (simp add: events_def dedup_days fetching_def day_fields not_covered)

lemma third_call:
  "events toISOString isoParse day_10_again fetching = fetching\<lparr>waiting := [(0, day_10_again)]\<rparr>"
proof -
  have "dedupKey toISOString day_10_again = Some january_key"
    by (simp add: dedupKey_def day_10_again_def iso_january january_key_def)
  then show ?thesis
    by (simp add: events_def fetching_def day_fields not_covered)
qed

lemma january_stored:
  "storeEventsToCache (case JArr [appointment, open_ended] of JArr list \<Rightarrow> list | _ \<Rightarrow> [])
     (Some (call_covStart day_10)) (Some (call_covEnd day_10)) (call_key day_10)
     sharedEventsCache = Some january_events"
  by (simp add: storeEventsToCache_def sharedEventsCache_def day_10_def january_events_def)

lemma iso_afternoon: "isoParse ''2024-01-12T14:00:00'' = Some 1705068000000"
  by (simp add: isoParse_def digit_val_def days_from_civil_def)

lemma answers:
  "fromCache isoParse day_10 january_events = [appointment]"
  "fromCache isoParse day_10_again january_events = [appointment]"
  "fromCache isoParse day_12 january_events = [open_ended]"
  by (simp_all add: fromCache_def eventsFromCache_def inRange_def toDate_def january_events_def
        day_10_def day_10_again_def day_12_def appointment_def open_ended_def iso_values
        iso_afternoon num_ge_def)

lemma run_fetching: "fetching = run toISOString isoParse [Invoke day_10] page_load"
  by (simp add: first_call)

text \<open>
  Claim C6. When an events fetch fails (the request rejects or the status is not OK; a
  body that is not JSON ends the same way), the cache after the \<^verbatim>\<open>catch\<close> and the
  \<^verbatim>\<open>finally\<close> of that fetch is the cache before them, and, when the two follow the call
  that issued the fetch, the cache before that call; the entry of \<^verbatim>\<open>pendingEventsFetches\<close>
  under the fetch's \<^verbatim>\<open>dedupKey\<close> is gone; and the caller has been told: its \<^verbatim>\<open>failure\<close>
  callback has been invoked, or, had it passed none, \<^verbatim>\<open>success([])\<close>.
\<close>

theorem failed_fetch_leaves_cache:
  assumes "dedupKey toISO cl = Some dk"
    and "r = NetworkError \<or> r = HttpError \<or> r = BadJson"
  shows "(inflight s p = Some (cl, False) \<longrightarrow>
            sharedCache (finalize toISO p (respond parse p r s)) = sharedCache s \<and>
            pendingEventsFetches (finalize toISO p (respond parse p r s)) dk = None \<and>
            answered (finalize toISO p (respond parse p r s)) =
              answered s @ [(call_who cl, if call_has_failure cl then Failure else Success [])]) \<and>
         (\<not> cacheCoversRange (call_covStart cl) (call_covEnd cl) (call_key cl) (sharedCache s) \<and>
          pendingEventsFetches s dk = None \<longrightarrow>
            fetches (events toISO parse cl s) = Suc (fetches s) \<and>
            sharedCache (finalize toISO (fetches s)
               (respond parse (fetches s) r (events toISO parse cl s))) = sharedCache s \<and>
            pendingEventsFetches (finalize toISO (fetches s)
               (respond parse (fetches s) r (events toISO parse cl s))) dk = None \<and>
            answered (finalize toISO (fetches s)
               (respond parse (fetches s) r (events toISO parse cl s))) =
              answered s @ [(call_who cl, if call_has_failure cl then Failure else Success [])])"
proof -
  have one: "sharedCache (finalize toISO p (respond parse p r t)) = sharedCache t \<and>
            pendingEventsFetches (finalize toISO p (respond parse p r t)) dk = None \<and>
            answered (finalize toISO p (respond parse p r t)) =
              answered t @ [(call_who cl, if call_has_failure cl then Failure else Success [])]"
    if t: "inflight t p = Some (cl, False)" for t p
  proof -
    let ?t1 = "fail cl (t\<lparr>inflight := (inflight t)(p \<mapsto> (cl, True))\<rparr>)"
    have r1: "respond parse p r t = ?t1" using t assms(2) by (rule respond_failed)
    have "inflight ?t1 p = Some (cl, True)" by simp
    from finalize_responded [OF this assms(1)] r1 show ?thesis by simp
  qed
  show ?thesis
  proof (intro conjI impI)
    assume a: "\<not> cacheCoversRange (call_covStart cl) (call_covEnd cl) (call_key cl) (sharedCache s) \<and>
          pendingEventsFetches s dk = None"
    let ?s1 = "events toISO parse cl s"
    have s1: "?s1 = s\<lparr>inflight := (inflight s)(fetches s \<mapsto> (cl, False)),
             pendingEventsFetches := (pendingEventsFetches s)(dk \<mapsto> fetches s),
             fetches := Suc (fetches s)\<rparr>"
      using assms(1) a by (intro events_issue) simp_all
    then have i: "inflight ?s1 (fetches s) = Some (cl, False)" by simp
    show "fetches ?s1 = Suc (fetches s)" using s1 by simp
    from one [OF i] s1
    show "sharedCache (finalize toISO (fetches s) (respond parse (fetches s) r ?s1)) = sharedCache s"
      and "pendingEventsFetches (finalize toISO (fetches s) (respond parse (fetches s) r ?s1)) dk = None"
      and "answered (finalize toISO (fetches s) (respond parse (fetches s) r ?s1)) =
              answered s @ [(call_who cl, if call_has_failure cl then Failure else Success [])]"
      by simp_all
  qed (use one in blast)+
qed

theorem failed_fetch_leaves_cache_witness:
  "sharedCache (finalize toISOString 0 (respond isoParse 0 HttpError
       (events toISOString isoParse day_10 page_load))) = sharedEventsCache \<and>
   pendingEventsFetches (finalize toISOString 0 (respond isoParse 0 HttpError
       (events toISOString isoParse day_10 page_load))) january_key = None \<and>
   answered (finalize toISOString 0 (respond isoParse 0 HttpError
       (events toISOString isoParse day_10 page_load))) = [(1, Failure)] \<and>
   sharedCache (finalize toISOString 0 (respond isoParse 0 NetworkError fetching)) =
     sharedCache fetching"
proof -
  have r: "HttpError = NetworkError \<or> HttpError = HttpError \<or> HttpError = BadJson"
    and r': "NetworkError = NetworkError \<or> NetworkError = HttpError \<or> NetworkError = BadJson"
    by simp_all
  have nc: "\<not> cacheCoversRange (call_covStart day_10) (call_covEnd day_10) (call_key day_10)
      (sharedCache page_load) \<and> pendingEventsFetches page_load january_key = None"
    by (simp add: page_load_def day_fields not_covered)
  have i: "inflight fetching 0 = Some (day_10, False)" by (simp add: fetching_def)
  have z: "fetches page_load = 0" "sharedCache page_load = sharedEventsCache"
    "answered page_load = []"
    by (simp_all add: page_load_def)
  from failed_fetch_leaves_cache [OF dedup_days(1) r, of page_load _ isoParse] nc z
  have 1: "sharedCache (finalize toISOString 0 (respond isoParse 0 HttpError
       (events toISOString isoParse day_10 page_load))) = sharedEventsCache"
    and 2: "pendingEventsFetches (finalize toISOString 0 (respond isoParse 0 HttpError
       (events toISOString isoParse day_10 page_load))) january_key = None"
    and 3: "answered (finalize toISOString 0 (respond isoParse 0 HttpError
       (events toISOString isoParse day_10 page_load))) = [(1, Failure)]"
    by (simp_all add: day_fields)
  from failed_fetch_leaves_cache [OF dedup_days(1) r', of fetching 0 isoParse] i
  have 4: "sharedCache (finalize toISOString 0 (respond isoParse 0 NetworkError fetching)) =
     sharedCache fetching"
    by blast
  from 1 2 3 4 show ?thesis by blast
qed

text \<open>
  Claim C4, as the specification states it, has a second invocation with the
  \<^verbatim>\<open>dedupKey\<close> of a pending fetch answered with the same data as the first. The
  \<^verbatim>\<open>dedupKey\<close> is made of the filter key and the padded range; each caller is answered by
  \<^verbatim>\<open>eventsFromCache\<close> over its own requested range. Two day views of the same month share
  one request and are answered with different events.
\<close>

theorem fetch_deduplication_ranges_counterexample:
  "dedupKey toISOString day_12 = dedupKey toISOString day_10 \<and>
   fetches (run toISOString isoParse
              [Invoke day_10, Invoke day_12, Arrive 0 (Ok (JArr [appointment, open_ended])),
               Finish 0, Resume 0] page_load) = 1 \<and>
   answered (run toISOString isoParse
              [Invoke day_10, Invoke day_12, Arrive 0 (Ok (JArr [appointment, open_ended])),
               Finish 0, Resume 0] page_load) =
     [(1, Success [appointment]), (2, Success [open_ended])]"
proof -
  let ?s = "fetching\<lparr>waiting := [(0, day_12)]\<rparr>"
  have i: "inflight ?s 0 = Some (day_10, False)" by (simp add: fetching_def)
  have st: "storeEventsToCache (case JArr [appointment, open_ended] of JArr list \<Rightarrow> list | _ \<Rightarrow> [])
     (Some (call_covStart day_10)) (Some (call_covEnd day_10)) (call_key day_10)
     (sharedCache ?s) = Some january_events"
    using january_stored by (simp add: fetching_def)
  have r: "respond isoParse 0 (Ok (JArr [appointment, open_ended])) ?s =
      success day_10 (fromCache isoParse day_10 january_events)
        (?s\<lparr>inflight := (inflight ?s)(0 \<mapsto> (day_10, True)), sharedCache := january_events\<rparr>)"
    using i st by (rule respond_Ok)
  have f: "finalize toISOString 0 (respond isoParse 0 (Ok (JArr [appointment, open_ended])) ?s) =
      \<lparr>sharedCache = january_events, pendingEventsFetches = Map.empty, inflight = Map.empty,
       waiting = [(0, day_12)], answered = [(1, Success [appointment])], fetches = 1\<rparr>"
    unfolding r
    by (simp add: finalize_def dedup_days success_def answers fetching_def day_fields)
  have "run toISOString isoParse
          [Invoke day_10, Invoke day_12, Arrive 0 (Ok (JArr [appointment, open_ended])),
           Finish 0, Resume 0] page_load =
        wake isoParse 0 (finalize toISOString 0
          (respond isoParse 0 (Ok (JArr [appointment, open_ended])) ?s))"
    by (simp add: first_call second_call)
  then have "run toISOString isoParse
          [Invoke day_10, Invoke day_12, Arrive 0 (Ok (JArr [appointment, open_ended])),
           Finish 0, Resume 0] page_load =
        \<lparr>sharedCache = january_events, pendingEventsFetches = Map.empty, inflight = Map.empty,
         waiting = [], answered = [(1, Success [appointment]), (2, Success [open_ended])],
         fetches = 1\<rparr>"
    unfolding f by (simp add: wake_def success_def answers day_fields)
  then show ?thesis by (simp add: dedup_days)
qed

text \<open>
  Claim C4, amended. In every state the page can reach, by any interleaving of calls,
  responses, \<^verbatim>\<open>finally\<close> callbacks, waiting callers and cache edits, two promise chains
  with the same \<^verbatim>\<open>dedupKey\<close>, or with the same filter key and padded range, are one: at
  most one request is in flight per \<^verbatim>\<open>dedupKey\<close>.
  A call whose \<^verbatim>\<open>dedupKey\<close> is in \<^verbatim>\<open>pendingEventsFetches\<close> sends no request and leaves the
  map as it is: when the cache does not cover its padded range it is chained on the
  promise stored under that key, and when the cache covers it, it is answered at once
  from the cache. The entry under a request's \<^verbatim>\<open>dedupKey\<close> is removed by its \<^verbatim>\<open>finally\<close>,
  whatever the response was. When the request succeeds and its callbacks and a waiting
  caller's run one after the other, the initiator and the waiting caller are answered
  from the same absorbed cache, each with the events of its own requested range, which
  are the same events when the two asked for the same key and range.
\<close>

theorem fetch_deduplication:
  "(s = run toISO parse acts page_load \<and>
    inflight s p = Some (cl, b) \<and> inflight s q = Some (cl', b') \<and>
    (dedupKey toISO cl = dedupKey toISO cl' \<or>
     call_key cl = call_key cl' \<and> call_covStart cl = call_covStart cl' \<and>
     call_covEnd cl = call_covEnd cl') \<longrightarrow> p = q) \<and>
   (dedupKey toISO cl = Some dk \<and> pendingEventsFetches s dk = Some p \<longrightarrow>
      fetches (events toISO parse cl s) = fetches s \<and>
      inflight (events toISO parse cl s) = inflight s \<and>
      pendingEventsFetches (events toISO parse cl s) = pendingEventsFetches s \<and>
      (\<not> cacheCoversRange (call_covStart cl) (call_covEnd cl) (call_key cl) (sharedCache s) \<longrightarrow>
         events toISO parse cl s = s\<lparr>waiting := waiting s @ [(p, cl)]\<rparr>) \<and>
      (cacheCoversRange (call_covStart cl) (call_covEnd cl) (call_key cl) (sharedCache s) \<longrightarrow>
         events toISO parse cl s = success cl (fromCache parse cl (sharedCache s)) s)) \<and>
   (inflight s p = Some (cl, False) \<and> dedupKey toISO cl = Some dk \<longrightarrow>
      pendingEventsFetches (finalize toISO p (respond parse p r s)) dk = None) \<and>
   (inflight s p = Some (cl, False) \<and> i < length (waiting s) \<and> waiting s ! i = (p, w) \<and>
    storeEventsToCache (case body of JArr list \<Rightarrow> list | _ \<Rightarrow> [])
      (Some (call_covStart cl)) (Some (call_covEnd cl)) (call_key cl) (sharedCache s) = Some c \<longrightarrow>
      answered (wake parse i (finalize toISO p (respond parse p (Ok body) s))) =
        answered s @ [(call_who cl, Success (fromCache parse cl c)),
                      (call_who w, Success (fromCache parse w c))] \<and>
      (call_key w = call_key cl \<and> call_start w = call_start cl \<and> call_end w = call_end cl \<longrightarrow>
         fromCache parse w c = fromCache parse cl c))"
proof (intro conjI impI)
  assume a: "s = run toISO parse acts page_load \<and>
    inflight s p = Some (cl, b) \<and> inflight s q = Some (cl', b') \<and>
    (dedupKey toISO cl = dedupKey toISO cl' \<or>
     call_key cl = call_key cl' \<and> call_covStart cl = call_covStart cl' \<and>
     call_covEnd cl = call_covEnd cl')"
  then have "dedupKey toISO cl = dedupKey toISO cl'"
    by (elim conjE disjE) (simp_all add: dedupKey_def split: option.splits)
  with a show "p = q" using one_request_per_key by blast
next
  assume a: "dedupKey toISO cl = Some dk \<and> pendingEventsFetches s dk = Some p"
  show "fetches (events toISO parse cl s) = fetches s"
    and "inflight (events toISO parse cl s) = inflight s"
    and "pendingEventsFetches (events toISO parse cl s) = pendingEventsFetches s"
    using a by (simp_all add: events_def)
next
  assume "dedupKey toISO cl = Some dk \<and> pendingEventsFetches s dk = Some p"
    and "\<not> cacheCoversRange (call_covStart cl) (call_covEnd cl) (call_key cl) (sharedCache s)"
  then show "events toISO parse cl s = s\<lparr>waiting := waiting s @ [(p, cl)]\<rparr>"
    by (simp add: events_def)
next
  assume "dedupKey toISO cl = Some dk \<and> pendingEventsFetches s dk = Some p"
    and "cacheCoversRange (call_covStart cl) (call_covEnd cl) (call_key cl) (sharedCache s)"
  then show "events toISO parse cl s = success cl (fromCache parse cl (sharedCache s)) s"
    by (simp add: events_def)
next
  assume a: "inflight s p = Some (cl, False) \<and> dedupKey toISO cl = Some dk"
  then have "inflight (respond parse p r s) p = Some (cl, True)"
    using respond_marks(1) [of s p cl parse r] by simp
  from finalize_clears(5) [OF this] a
  show "pendingEventsFetches (finalize toISO p (respond parse p r s)) dk = None" by simp
next
  assume a: "inflight s p = Some (cl, False) \<and> i < length (waiting s) \<and> waiting s ! i = (p, w) \<and>
    storeEventsToCache (case body of JArr list \<Rightarrow> list | _ \<Rightarrow> [])
      (Some (call_covStart cl)) (Some (call_covEnd cl)) (call_key cl) (sharedCache s) = Some c"
  let ?s1 = "respond parse p (Ok body) s"
  let ?s2 = "finalize toISO p ?s1"
  have s1: "?s1 = success cl (fromCache parse cl c)
             (s\<lparr>inflight := (inflight s)(p \<mapsto> (cl, True)), sharedCache := c\<rparr>)"
    using a by (intro respond_Ok) simp_all
  have m: "inflight ?s1 p = Some (cl, True)" using s1 by simp
  note f = finalize_clears [OF m, of toISO]
  have 1: "inflight ?s2 p = None" using f(1) by simp
  have 2: "waiting ?s2 = waiting s" using f(2) s1 by simp
  have 3: "sharedCache ?s2 = c" using f(3) s1 by simp
  have 4: "answered ?s2 = answered s @ [(call_who cl, Success (fromCache parse cl c))]"
    using f(4) s1 by simp
  show "answered (wake parse i ?s2) =
        answered s @ [(call_who cl, Success (fromCache parse cl c)),
                      (call_who w, Success (fromCache parse w c))]"
    using a 1 2 3 4 by (simp add: wake_def)
next
  assume "call_key w = call_key cl \<and> call_start w = call_start cl \<and> call_end w = call_end cl"
  then show "fromCache parse w c = fromCache parse cl c" by (simp add: fromCache_def)
qed

theorem fetch_deduplication_witness:
  "fetching = run toISOString isoParse [Invoke day_10] page_load \<and>
   inflight fetching 0 = Some (day_10, False) \<and> (0::nat) = 0 \<and>
   events toISOString isoParse day_12 fetching = fetching\<lparr>waiting := waiting fetching @ [(0, day_12)]\<rparr> \<and>
   fetches (events toISOString isoParse day_12 fetching) = fetches fetching \<and>
   pendingEventsFetches (finalize toISOString 0 (respond isoParse 0 HttpError fetching))
     january_key = None \<and>
   answered
     (wake isoParse 0
        (finalize toISOString 0
           (respond isoParse 0 (Ok (JArr [appointment, open_ended]))
              (fetching\<lparr>waiting := [(0, day_10_again)]\<rparr>)))) =
     [(1, Success [appointment]), (3, Success [appointment])]"
proof -
  let ?s = "fetching\<lparr>waiting := [(0, day_10_again)]\<rparr>"
  have i: "inflight fetching 0 = Some (day_10, False)" by (simp add: fetching_def)
  have pend: "pendingEventsFetches fetching january_key = Some 0" by (simp add: fetching_def)
  have nc: "\<not> cacheCoversRange (call_covStart day_12) (call_covEnd day_12) (call_key day_12)
      (sharedCache fetching)"
    by (simp add: fetching_def day_fields not_covered)
  have run: "inflight ?s 0 = Some (day_10, False) \<and> 0 < length (waiting ?s) \<and>
      waiting ?s ! 0 = (0, day_10_again) \<and>
      storeEventsToCache (case JArr [appointment, open_ended] of JArr list \<Rightarrow> list | _ \<Rightarrow> [])
        (Some (call_covStart day_10)) (Some (call_covEnd day_10)) (call_key day_10)
        (sharedCache ?s) = Some january_events"
    using january_stored by (simp add: fetching_def)
  have a0: "answered ?s = []" by (simp add: fetching_def)
  from fetch_deduplication [where toISO = toISOString and parse = isoParse and s = fetching
      and cl = day_12 and dk = january_key and p = 0]
    dedup_days(2) pend nc
  have 1: "events toISOString isoParse day_12 fetching =
             fetching\<lparr>waiting := waiting fetching @ [(0, day_12)]\<rparr>"
    and 2: "fetches (events toISOString isoParse day_12 fetching) = fetches fetching"
    by blast+
  from fetch_deduplication [where toISO = toISOString and parse = isoParse and s = fetching
      and cl = day_10 and dk = january_key and p = 0 and r = HttpError]
    dedup_days(1) i
  have 3: "pendingEventsFetches (finalize toISOString 0 (respond isoParse 0 HttpError fetching))
     january_key = None"
    by blast
  from fetch_deduplication [where toISO = toISOString and parse = isoParse and s = ?s
      and cl = day_10 and p = 0 and i = 0 and w = day_10_again
      and body = "JArr [appointment, open_ended]" and c = january_events] run
  have "answered (wake isoParse 0 (finalize toISOString 0
           (respond isoParse 0 (Ok (JArr [appointment, open_ended])) ?s))) =
        answered ?s @ [(call_who day_10, Success (fromCache isoParse day_10 january_events)),
                       (call_who day_10_again, Success (fromCache isoParse day_10_again january_events))]"
    by blast
  then have 4: "answered (wake isoParse 0 (finalize toISOString 0
           (respond isoParse 0 (Ok (JArr [appointment, open_ended])) ?s))) =
        [(1, Success [appointment]), (3, Success [appointment])]"
    by (simp add: a0 answers day_fields)
  from fetch_deduplication [where toISO = toISOString and parse = isoParse and s = fetching
      and acts = "[Invoke day_10]" and p = 0 and q = 0 and cl = day_10 and cl' = day_10
      and b = False and b' = False] run_fetching i
  have 0: "(0::nat) = 0" by blast
  from run_fetching i 0 1 2 3 4 show ?thesis by blast
qed

end
